theory Spec2Isabelle
  imports Main "HOL-Library.Word"
begin

section \<open>A V4L2 frame grabber: \<^verbatim>\<open>camera_driver.c\<close>\<close>

text \<open>
  The driver opens a capture device, negotiates a 320x240 YUYV format, maps the
  device's buffers, waits for one frame, converts it to RGB24 and writes it as a
  PPM file. The model below follows the C source function by function. The
  operating system is not part of the program: every system call takes its
  answer from a script, so that a theorem about all scripts is a theorem about
  every behaviour of the device, the file system and the clock.

  C types: \<^verbatim>\<open>unsigned char\<close> is \<^typ>\<open>8 word\<close>, \<^verbatim>\<open>unsigned int\<close>
  and \<^verbatim>\<open>__u32\<close> are \<^typ>\<open>32 word\<close> (arithmetic wraps), \<^verbatim>\<open>int\<close> is
  \<^typ>\<open>32 word\<close> read with \<^const>\<open>sint\<close> where the code computes with it.
\<close>

type_synonym u8 = "8 word"
type_synonym u32 = "32 word"
type_synonym c_int = "32 word"

subsection \<open>Constants of the source and of the headers it includes\<close>

definition HRES :: u32 where
  "HRES = 320"

definition VRES :: u32 where
  "VRES = 240"

definition HRES_STR :: string where
  "HRES_STR = ''320''"

definition VRES_STR :: string where
  "VRES_STR = ''240''"

text \<open>\<^verbatim>\<open>#define PRINT_ENABLE (0)\<close>: every call of \<^verbatim>\<open>errno_exit\<close> stands
  under \<^verbatim>\<open>#if (PRINT_ENABLE == 1)\<close>.\<close>

definition PRINT_ENABLE :: nat where
  "PRINT_ENABLE = 0"

definition EXIT_FAILURE :: int where
  "EXIT_FAILURE = 1"

text \<open>\<^verbatim>\<open>v4l2_fourcc('Y', 'U', 'Y', 'V')\<close> and \<^verbatim>\<open>V4L2_FIELD_NONE\<close> of
  \<^verbatim>\<open>linux/videodev2.h\<close>; the two capability bits the driver tests.\<close>

definition V4L2_PIX_FMT_YUYV :: u32 where
  "V4L2_PIX_FMT_YUYV = 0x56595559"

definition V4L2_FIELD_NONE :: u32 where
  "V4L2_FIELD_NONE = 1"

definition V4L2_CAP_VIDEO_CAPTURE :: u32 where
  "V4L2_CAP_VIDEO_CAPTURE = 0x00000001"

definition V4L2_CAP_STREAMING :: u32 where
  "V4L2_CAP_STREAMING = 0x04000000"

text \<open>\<^verbatim>\<open>unsigned char bigbuffer[(1280 * 960)]\<close>.\<close>

definition BIGBUFFER_SIZE :: nat where
  "BIGBUFFER_SIZE = 1280 * 960"

definition NUL :: char where
  "NUL = CHR 0x00"

definition NL :: char where
  "NL = CHR 0x0A"

datatype errno = EINTR | EAGAIN | EIO | EINVAL | EBADF | EOTHER

datatype signal = SIGINT | SIGTERM | SIGALRM

subsection \<open>Program state\<close>

record pix_format =
  width :: u32
  height :: u32
  pixelformat :: u32
  field :: u32
  bytesperline :: u32
  sizeimage :: u32

text \<open>\<^verbatim>\<open>struct buffer\<close>: \<open>start\<close> is \<open>None\<close> for \<^verbatim>\<open>MAP_FAILED\<close>.\<close>

record buffer =
  start :: "nat option"
  length_b :: nat

record timespec =
  tv_sec :: int
  tv_nsec :: int

text \<open>The file-scope variables of the source, and what the process has
  written: the files (by name), standard output and standard error.\<close>

record cam_state =
  is_capture :: bool
  fmt :: pix_format
  fd :: int
  buffers :: "buffer list"
  n_buffers :: u32
  force_format :: c_int
  ppm_header :: string
  ppm_dumpname :: string
  framecnt :: u32
  bigbuffer :: "nat \<Rightarrow> u8"
  files :: "string \<rightharpoonup> u8 list"
  stdout :: "string list"
  stderr :: "string list"
  syslog :: "string list"

datatype fault = ReadOutOfBounds | WriteOutOfBounds | UninitializedRead

text \<open>How a call can fail to return: the process exited with a status, an
  \<^verbatim>\<open>assert\<close> aborted it, the C code left defined behaviour, or the script of
  system-call answers ran out while the code was still looping.\<close>

datatype stop = Exited int cam_state | Aborted cam_state | Fault fault | Pending

datatype 'a ioctl_res = IoOk 'a | IoErr errno

datatype select_res = SelReady | SelTimeout | SelErr errno

datatype write_res = Wrote nat | WriteErr errno

text \<open>The answers of the operating system during one pass of the capture
  loop: the signals delivered while the process waits, the result of
  \<^verbatim>\<open>select\<close>, the raw results of the \<^verbatim>\<open>VIDIOC_DQBUF\<close> calls (buffer index,
  bytes used, content of the mapped memory), the clock, whether the output file
  opens, the results of the \<^verbatim>\<open>write\<close> calls, of \<^verbatim>\<open>VIDIOC_QBUF\<close> and of
  \<^verbatim>\<open>nanosleep\<close>.\<close>

record tick =
  signals :: "signal list"
  sel :: select_res
  dqbuf :: "(u32 \<times> u32 \<times> u8 list) ioctl_res list"
  clock :: timespec
  open_ok :: bool
  hdr_write :: write_res
  data_writes :: "write_res list"
  qbuf :: "unit ioctl_res list"
  nanosleep_ret :: int

subsection \<open>\<^verbatim>\<open>signalHandler\<close>\<close>

fun signalHandler :: "signal \<Rightarrow> cam_state \<Rightarrow> cam_state" where
  "signalHandler SIGINT s =
     s\<lparr>syslog := syslog s @ [''Caught signal SIGINT'' @ [NL]], is_capture := False\<rparr>"
| "signalHandler SIGTERM s =
     s\<lparr>syslog := syslog s @ [''Caught signal SIGTERM'' @ [NL]], is_capture := False\<rparr>"
| "signalHandler SIGALRM s = s"

subsection \<open>\<^verbatim>\<open>errno_exit\<close> and \<^verbatim>\<open>xioctl\<close>\<close>

definition errno_exit :: "string \<Rightarrow> cam_state \<Rightarrow> stop" where
  "errno_exit name s = Exited EXIT_FAILURE (s\<lparr>stderr := stderr s @ [name @ '' error'']\<rparr>)"

text \<open>\<^verbatim>\<open>xioctl\<close> repeats the call while it fails with \<^verbatim>\<open>EINTR\<close>; the list
  holds the raw answers in order, and an exhausted list is a call that has not
  returned yet.\<close>

fun xioctl :: "'a ioctl_res list \<Rightarrow> 'a ioctl_res option" where
  "xioctl [] = None"
| "xioctl (IoErr e # rs) = (if e = EINTR then xioctl rs else Some (IoErr e))"
| "xioctl (IoOk a # rs) = Some (IoOk a)"

subsection \<open>\<^verbatim>\<open>yuv2rgb\<close>\<close>

text \<open>\<^verbatim>\<open>>>\<close> on a negative \<^verbatim>\<open>int\<close> is gcc's arithmetic shift. The two
  rounds of clipping are in the order of the source.\<close>

definition yuv2rgb :: "c_int \<Rightarrow> c_int \<Rightarrow> c_int \<Rightarrow> u8 \<times> u8 \<times> u8" where
  "yuv2rgb y u v =
    (let c = y - 16; d = u - 128; e = v - 128;
         r1 = signed_drop_bit 8 (298 * c + 409 * e + 128);
         g1 = signed_drop_bit 8 (298 * c - 100 * d - 208 * e + 128);
         b1 = signed_drop_bit 8 (298 * c + 516 * d + 128);
         r1 = (if 255 <s r1 then 255 else r1);
         g1 = (if 255 <s g1 then 255 else g1);
         b1 = (if 255 <s b1 then 255 else b1);
         r1 = (if r1 <s 0 then 0 else r1);
         g1 = (if g1 <s 0 then 0 else g1);
         b1 = (if b1 <s 0 then 0 else b1)
     in (ucast r1, ucast g1, ucast b1))"

text \<open>The formula in the words of the specification, on unbounded integers.\<close>

definition clamp_0_255 :: "int \<Rightarrow> int" where
  "clamp_0_255 x = max 0 (min 255 x)"

definition spec_rgb :: "int \<Rightarrow> int \<Rightarrow> int \<Rightarrow> int \<times> int \<times> int" where
  "spec_rgb Y U V =
    (let c = Y - 16; d = U - 128; e = V - 128
     in (clamp_0_255 (drop_bit 8 (298 * c + 409 * e + 128)),
         clamp_0_255 (drop_bit 8 (298 * c - 100 * d - 208 * e + 128)),
         clamp_0_255 (drop_bit 8 (298 * c + 516 * d + 128))))"

definition spec_pixel :: "u8 \<Rightarrow> u8 \<Rightarrow> u8 \<Rightarrow> u8 list" where
  "spec_pixel Y U V =
    (case spec_rgb (uint Y) (uint U) (uint V) of
       (r, g, b) \<Rightarrow> [word_of_int r, word_of_int g, word_of_int b])"

subsection \<open>The conversion loop of \<^verbatim>\<open>process_image\<close>\<close>

text \<open>
  \<^verbatim>\<open>for (i = 0, newi = 0; i < size; i = i + 4, newi = newi + 6)\<close>, started at
  any \<open>i\<close> and \<open>newi\<close>. The frame \<open>p\<close> is the mapped memory; a read past its end
  and a write past the end of \<^verbatim>\<open>bigbuffer\<close> are faults (C does not check, the
  model does). \<open>i\<close> and \<open>newi\<close> only count up from 0 and are natural numbers.
\<close>

function convert_loop :: "u8 list \<Rightarrow> int \<Rightarrow> nat \<Rightarrow> nat \<Rightarrow> (nat \<Rightarrow> u8) \<Rightarrow> fault + (nat \<Rightarrow> u8)" where
  "convert_loop pptr sz i newi bb =
    (if int i < sz then
       (if length pptr \<le> i + 3 then Inl ReadOutOfBounds
        else
          let y_temp = ucast (pptr ! i);
              u_temp = ucast (pptr ! (i + 1));
              y2_temp = ucast (pptr ! (i + 2));
              v_temp = ucast (pptr ! (i + 3))
          in if BIGBUFFER_SIZE \<le> newi + 5 then Inl WriteOutOfBounds
             else
               (case yuv2rgb y_temp u_temp v_temp of (r, g, b) \<Rightarrow>
                (case yuv2rgb y2_temp u_temp v_temp of (r2, g2, b2) \<Rightarrow>
                   convert_loop pptr sz (i + 4) (newi + 6)
                     (bb(newi := r, newi + 1 := g, newi + 2 := b,
                         newi + 3 := r2, newi + 4 := g2, newi + 5 := b2)))))
     else Inr bb)"
  by pat_completeness auto
termination
  by (relation "measure (\<lambda>(pptr, sz, i, newi, bb). nat (sz - int i))") auto

declare convert_loop.simps [simp del]

text \<open>The number of passes of the loop from \<open>i\<close>.\<close>

definition passes :: "int \<Rightarrow> nat \<Rightarrow> nat" where
  "passes sz i = nat ((sz - int i + 3) div 4)"

text \<open>A pixel pair in the words of the specification: the two pixels of a
  quadruple share its chroma pair.\<close>

definition spec_pair :: "u8 \<Rightarrow> u8 \<Rightarrow> u8 \<Rightarrow> u8 \<Rightarrow> u8 list" where
  "spec_pair Y0 U Y1 V = spec_pixel Y0 U V @ spec_pixel Y1 U V"

subsection \<open>The C library: \<^verbatim>\<open>snprintf\<close>, \<^verbatim>\<open>strncat\<close>, \<^verbatim>\<open>strcat\<close>\<close>

text \<open>A \<^verbatim>\<open>char\<close> array is the list of its bytes, the terminating NUL
  included. Writing past the end of the array, and searching for a NUL that is
  not there, are faults.\<close>

fun digits10 :: "nat \<Rightarrow> string" where
  "digits10 n =
    (if n < 10 then [''0123456789'' ! n]
     else digits10 (n div 10) @ [''0123456789'' ! (n mod 10)])"

declare digits10.simps [simp del]

text \<open>The conversion \<^verbatim>\<open>%0<w>d\<close>: the sign counts in the width, the zeros
  come after it.\<close>

definition printf_0d :: "nat \<Rightarrow> int \<Rightarrow> string" where
  "printf_0d w k =
    (if k < 0
     then CHR ''-'' # replicate (w - 1 - length (digits10 (nat (- k)))) (CHR ''0'') @ digits10 (nat (- k))
     else replicate (w - length (digits10 (nat k))) (CHR ''0'') @ digits10 (nat k))"

definition is_digit :: "char \<Rightarrow> bool" where
  "is_digit c = (c \<in> set ''0123456789'')"

definition poke :: "nat \<Rightarrow> string \<Rightarrow> string \<Rightarrow> fault + string" where
  "poke off bs buf =
    (if off + length bs \<le> length buf
     then Inr (take off buf @ bs @ drop (off + length bs) buf)
     else Inl WriteOutOfBounds)"

text \<open>\<^verbatim>\<open>snprintf(&buf[off], n, "%0<w>d", k)\<close>: at most \<open>n - 1\<close> characters
  and a NUL.\<close>

definition snprintf_0d :: "nat \<Rightarrow> nat \<Rightarrow> nat \<Rightarrow> int \<Rightarrow> string \<Rightarrow> fault + string" where
  "snprintf_0d off n w k buf =
    (if n = 0 then Inr buf else poke off (take (n - 1) (printf_0d w k) @ [NUL]) buf)"

definition strlen_from :: "nat \<Rightarrow> string \<Rightarrow> fault + nat" where
  "strlen_from off buf =
    (if NUL \<in> set (drop off buf)
     then Inr (length (takeWhile (\<lambda>c. c \<noteq> NUL) (drop off buf)))
     else Inl ReadOutOfBounds)"

text \<open>\<^verbatim>\<open>strncat(&buf[off], src, n)\<close> and \<^verbatim>\<open>strcat(&buf[off], src)\<close>.\<close>

definition strncat :: "nat \<Rightarrow> string \<Rightarrow> nat \<Rightarrow> string \<Rightarrow> fault + string" where
  "strncat off src n buf =
    (case strlen_from off buf of
       Inl f \<Rightarrow> Inl f
     | Inr l \<Rightarrow> poke (off + l) (take n src @ [NUL]) buf)"

definition strcat :: "nat \<Rightarrow> string \<Rightarrow> string \<Rightarrow> fault + string" where
  "strcat off src buf =
    (case strlen_from off buf of
       Inl f \<Rightarrow> Inl f
     | Inr l \<Rightarrow> poke (off + l) (src @ [NUL]) buf)"

text \<open>The string a \<^verbatim>\<open>char\<close> array holds, as \<^verbatim>\<open>open\<close> reads it.\<close>

definition c_str :: "string \<Rightarrow> string" where
  "c_str buf = takeWhile (\<lambda>c. c \<noteq> NUL) buf"

text \<open>The conversion to \<^verbatim>\<open>int\<close> of a wider integer, and C's division, which
  truncates towards zero.\<close>

definition to_c_int :: "int \<Rightarrow> int" where
  "to_c_int k = sint (word_of_int k :: 32 word)"

definition c_div :: "int \<Rightarrow> int \<Rightarrow> int" where
  "c_div a b = sgn a * sgn b * (\<bar>a\<bar> div \<bar>b\<bar>)"

subsection \<open>The file system: \<^verbatim>\<open>open\<close> and \<^verbatim>\<open>write\<close>\<close>

text \<open>\<^verbatim>\<open>open(name, O_WRONLY | O_NONBLOCK | O_CREAT, 00666)\<close>: a file that
  does not exist is created empty, one that exists keeps its content (there is
  no \<^verbatim>\<open>O_TRUNC\<close>).\<close>

definition sys_open_creat :: "bool \<Rightarrow> string \<Rightarrow> (string \<rightharpoonup> u8 list) \<Rightarrow> (string \<rightharpoonup> u8 list)" where
  "sys_open_creat ok name fs = (if ok \<and> fs name = None then fs(name \<mapsto> []) else fs)"

text \<open>The value \<^verbatim>\<open>write(fd, buf, n)\<close> returns: -1 on a descriptor that did not
  open and on an error, otherwise the number of bytes taken, at most \<open>n\<close>.\<close>

definition sys_write :: "bool \<Rightarrow> write_res \<Rightarrow> nat \<Rightarrow> int" where
  "sys_write ok w n =
    (if \<not> ok then - 1
     else case w of WriteErr e \<Rightarrow> - 1 | Wrote k \<Rightarrow> int (min k n))"

definition file_put :: "string \<Rightarrow> nat \<Rightarrow> u8 list \<Rightarrow> (string \<rightharpoonup> u8 list) \<Rightarrow> (string \<rightharpoonup> u8 list)" where
  "file_put name off bs fs =
    (case fs name of
       None \<Rightarrow> fs
     | Some c \<Rightarrow> fs(name \<mapsto> take off c @ bs @ drop (off + length bs) c))"

subsection \<open>\<^verbatim>\<open>dump_ppm\<close>\<close>

definition ppm_header_init :: string where
  "ppm_header_init =
     ''P6'' @ [NL] @ ''#9999999999 sec 9999999999 msec '' @ [NL] @
     HRES_STR @ '' '' @ VRES_STR @ [NL] @ ''255'' @ [NL] @ [NUL]"

text \<open>The literal \<^verbatim>\<open>" msec \n" HRES_STR " " VRES_STR "\n255\n"\<close> of \<^verbatim>\<open>dump_ppm\<close>.\<close>

definition ppm_tail :: string where
  "ppm_tail = '' msec '' @ [NL] @ HRES_STR @ '' '' @ VRES_STR @ [NL] @ ''255'' @ [NL]"

definition ppm_dumpname_init :: string where
  "ppm_dumpname_init = ''frames/test00000000.ppm'' @ [NUL]"

text \<open>
  \<^verbatim>\<open>do { written = write(dumpfd, p, size); total += written; } while (total < size);\<close>
  Every pass offers the same \<open>size\<close> bytes at \<open>p\<close> again; the file takes what
  the call accepted at the descriptor's offset. One answer of the script is
  used per call; \<open>tot\<close> (the variable \<^verbatim>\<open>total\<close>) is an unbounded integer here (a C \<^verbatim>\<open>int\<close> would
  overflow only after \<open>2^31\<close> failed calls).
\<close>

fun write_loop ::
  "write_res list \<Rightarrow> bool \<Rightarrow> string \<Rightarrow> u8 list \<Rightarrow> int \<Rightarrow> int \<Rightarrow> nat \<Rightarrow>
   (string \<rightharpoonup> u8 list) \<Rightarrow> (string \<rightharpoonup> u8 list) option" where
  "write_loop [] ok name p sz tot off fs = None"
| "write_loop (w # ws) ok name p sz tot off fs =
    (let written = sys_write ok w (length p);
         fs' = file_put name off (take (nat written) p) fs;
         tot' = tot + written
     in if tot' < sz then write_loop ws ok name p sz tot' (off + nat written) fs'
        else Some fs')"

definition dump_ppm ::
  "tick \<Rightarrow> (nat \<Rightarrow> u8) \<Rightarrow> int \<Rightarrow> u32 \<Rightarrow> timespec \<Rightarrow> cam_state \<Rightarrow> stop + cam_state" where
  "dump_ppm t p sz tag time s =
    (case snprintf_0d 11 9 8 (sint tag) (ppm_dumpname s) of
       Inl f \<Rightarrow> Inl (Fault f)
     | Inr n1 \<Rightarrow>
    (case strncat 15 ''.ppm'' 5 n1 of
       Inl f \<Rightarrow> Inl (Fault f)
     | Inr n2 \<Rightarrow>
    (let name = c_str n2;
         fs0 = sys_open_creat (open_ok t) name (files s)
     in
    (case snprintf_0d 4 11 10 (to_c_int (tv_sec time)) (ppm_header s) of
       Inl f \<Rightarrow> Inl (Fault f)
     | Inr h1 \<Rightarrow>
    (case strncat 14 '' sec  '' 5 h1 of
       Inl f \<Rightarrow> Inl (Fault f)
     | Inr h2 \<Rightarrow>
    (case snprintf_0d 19 11 10 (to_c_int (c_div (tv_nsec time) 1000000)) h2 of
       Inl f \<Rightarrow> Inl (Fault f)
     | Inr h3 \<Rightarrow>
    (case strcat 29 ppm_tail h3 of
       Inl f \<Rightarrow> Inl (Fault f)
     | Inr h4 \<Rightarrow>
       if sz < 0 \<or> int BIGBUFFER_SIZE < sz then Inl (Fault ReadOutOfBounds)
       else
         let hdr = take (length h4 - 1) h4;
             written = sys_write (open_ok t) (hdr_write t) (length hdr);
             fs1 = file_put name 0 (take (nat written) (map of_char hdr)) fs0;
             s1 = s\<lparr>ppm_header := h4, ppm_dumpname := n2\<rparr>
         in (case write_loop (data_writes t) (open_ok t) name (map p [0..<nat sz]) sz 0
                    (nat written) fs1 of
               None \<Rightarrow> Inl Pending
             | Some fs2 \<Rightarrow>
                 Inr (s1\<lparr>files := fs2, stdout := stdout s1 @ [''Wrote a frame'' @ [NL]]\<rparr>)))))))))"

text \<open>The name and the header \<^verbatim>\<open>dump_ppm\<close> builds, when the two arrays
  still begin as they were initialised.\<close>

definition arrays_ok :: "cam_state \<Rightarrow> bool" where
  "arrays_ok s =
    (length (ppm_dumpname s) = 24 \<and> take 11 (ppm_dumpname s) = ''frames/test'' \<and>
     length (ppm_header s) = 49 \<and> take 4 (ppm_header s) = ''P6'' @ [NL] @ ''#'')"

definition frame_name :: "u32 \<Rightarrow> string" where
  "frame_name tag = ''frames/test'' @ take 8 (printf_0d 8 (sint tag)) @ ''.ppm''"

definition frame_header :: "timespec \<Rightarrow> string" where
  "frame_header time =
     ''P6'' @ [NL] @ ''#'' @ take 10 (printf_0d 10 (to_c_int (tv_sec time))) @ '' sec '' @
     take 10 (printf_0d 10 (to_c_int (c_div (tv_nsec time) 1000000))) @ ppm_tail"

subsection \<open>\<^verbatim>\<open>process_image\<close>\<close>

text \<open>\<open>p\<close> is the mapped memory of the dequeued buffer, \<open>sz\<close> the value of
  the \<^verbatim>\<open>int\<close> parameter \<^verbatim>\<open>size\<close>. The counter is incremented before the
  pixel format is looked at.\<close>

definition process_image :: "tick \<Rightarrow> u8 list \<Rightarrow> int \<Rightarrow> cam_state \<Rightarrow> stop + cam_state" where
  "process_image t p sz s =
    (let frame_time = clock t;
         s1 = s\<lparr>framecnt := framecnt s + 1\<rparr>
     in if pixelformat (fmt s1) = V4L2_PIX_FMT_YUYV then
          (case convert_loop p sz 0 0 (bigbuffer s1) of
             Inl f \<Rightarrow> Inl (Fault f)
           | Inr bb \<Rightarrow>
               dump_ppm t bb (c_div (sz * 6) 4) (framecnt s1) frame_time (s1\<lparr>bigbuffer := bb\<rparr>))
        else Inr (s1\<lparr>stdout := stdout s1 @ [''ERROR - unknown dump format'' @ [NL]]\<rparr>))"

subsection \<open>\<^verbatim>\<open>read_frame\<close>\<close>

text \<open>The memory \<^verbatim>\<open>buffers[index].start\<close> points to: nothing can be read
  through \<^verbatim>\<open>MAP_FAILED\<close> or outside the array.\<close>

definition frame_memory :: "buffer list \<Rightarrow> u32 \<Rightarrow> u8 list \<Rightarrow> u8 list" where
  "frame_memory bs index mem =
    (if unat index < length bs then
       (case start (bs ! unat index) of
          None \<Rightarrow> []
        | Some a \<Rightarrow> take (length_b (bs ! unat index)) mem)
     else [])"

text \<open>\<^verbatim>\<open>read_frame\<close> from the \<^verbatim>\<open>assert\<close> on, with \<^verbatim>\<open>buf\<close> as the
  \<^verbatim>\<open>VIDIOC_DQBUF\<close> call left it.\<close>

definition read_frame_buf :: "tick \<Rightarrow> u32 \<times> u32 \<times> u8 list \<Rightarrow> cam_state \<Rightarrow> stop + (int \<times> cam_state)" where
  "read_frame_buf t buf s =
    (case buf of (index, bytesused, mem) \<Rightarrow>
       if \<not> index < n_buffers s then Inl (Aborted s)
       else
         (case process_image t (frame_memory (buffers s) index mem) (sint bytesused) s of
            Inl e \<Rightarrow> Inl e
          | Inr s' \<Rightarrow>
              (case xioctl (qbuf t) of
                 None \<Rightarrow> Inl Pending
               | Some (IoErr e) \<Rightarrow>
                   if PRINT_ENABLE = 1 then Inl (errno_exit ''VIDIOC_QBUF'' s') else Inr (1, s')
               | Some (IoOk u) \<Rightarrow> Inr (1, s'))))"

text \<open>With \<^verbatim>\<open>PRINT_ENABLE\<close> 0 the \<^verbatim>\<open>switch\<close> has no \<^verbatim>\<open>default\<close>: after any
  other error the code goes on with the cleared \<^verbatim>\<open>buf\<close> (index 0, no bytes
  used).\<close>

definition read_frame :: "tick \<Rightarrow> cam_state \<Rightarrow> stop + (int \<times> cam_state)" where
  "read_frame t s =
    (case xioctl (dqbuf t) of
       None \<Rightarrow> Inl Pending
     | Some (IoErr e) \<Rightarrow>
         if e = EAGAIN then Inr (0, s)
         else if e = EIO then Inr (0, s)
         else if PRINT_ENABLE = 1
           then Inl (errno_exit ''VIDIOC_DQBUF'' (s\<lparr>stdout := stdout s @ [''mmap failure'' @ [NL]]\<rparr>))
         else read_frame_buf t (0, 0, []) s
     | Some (IoOk buf) \<Rightarrow> read_frame_buf t buf s)"

subsection \<open>\<^verbatim>\<open>capture_frame\<close>\<close>

text \<open>
  One element of the script per pass of \<^verbatim>\<open>for (;;)\<close>. The \<^verbatim>\<open>break\<close> is the
  statement of the \<^verbatim>\<open>else\<close> (the \<^verbatim>\<open>printf\<close> before it is commented out), so
  the loop goes on when \<^verbatim>\<open>nanosleep\<close> fails. The signal handler runs while
  the process waits in \<^verbatim>\<open>select\<close>.
\<close>

fun capture_frame :: "tick list \<Rightarrow> cam_state \<Rightarrow> stop + cam_state" where
  "capture_frame [] s = Inl Pending"
| "capture_frame (t # ts) s =
    (let s0 = fold signalHandler (signals t) s in
     (case sel t of
        SelErr e \<Rightarrow>
          if e = EINTR then capture_frame ts s0
          else if PRINT_ENABLE = 1 then Inl (errno_exit ''select'' s0)
          else
            (case read_frame t s0 of
               Inl x \<Rightarrow> Inl x
             | Inr (r, s') \<Rightarrow>
                 if r \<noteq> 0 then
                   (if nanosleep_ret t \<noteq> 0
                    then capture_frame ts (s'\<lparr>stderr := stderr s' @ [''nanosleep'']\<rparr>)
                    else Inr s')
                 else capture_frame ts s')
      | SelTimeout \<Rightarrow>
          Inl (Exited EXIT_FAILURE (s0\<lparr>stderr := stderr s0 @ [''select timeout'' @ [NL]]\<rparr>))
      | SelReady \<Rightarrow>
          (case read_frame t s0 of
             Inl x \<Rightarrow> Inl x
           | Inr (r, s') \<Rightarrow>
               if r \<noteq> 0 then
                 (if nanosleep_ret t \<noteq> 0
                  then capture_frame ts (s'\<lparr>stderr := stderr s' @ [''nanosleep'']\<rparr>)
                  else Inr s')
               else capture_frame ts s')))"

declare capture_frame.simps [simp del]

subsection \<open>The device: answers to the calls of set-up and tear-down\<close>

text \<open>
  \<open>stat_res\<close> is \<open>None\<close> when \<^verbatim>\<open>stat\<close> fails and otherwise tells whether the path
  is a character device; \<open>open_res\<close> is the descriptor \<^verbatim>\<open>open\<close> returns (-1 for
  a failure). An ioctl that succeeds answers with what the driver wrote into the
  argument: the capability bits, the format, the number of buffers granted for
  the number asked, length and offset of a buffer. \<open>mmap_res\<close> is the address of
  the mapping of a buffer, \<open>None\<close> for \<^verbatim>\<open>MAP_FAILED\<close>.
\<close>

record device =
  stat_res :: "bool option"
  open_res :: int
  querycap :: "u32 ioctl_res list"
  cropcap :: "unit ioctl_res list"
  s_crop :: "unit ioctl_res list"
  s_fmt :: "pix_format ioctl_res list"
  g_fmt :: "pix_format ioctl_res list"
  reqbufs :: "u32 \<Rightarrow> u32 ioctl_res list"
  calloc_ok :: bool
  querybuf :: "u32 \<Rightarrow> (nat \<times> nat) ioctl_res list"
  mmap_res :: "u32 \<Rightarrow> nat option"
  start_qbuf :: "u32 \<Rightarrow> unit ioctl_res list"
  streamon :: "unit ioctl_res list"
  ticks :: "tick list"
  streamoff :: "unit ioctl_res list"
  munmap_ok :: "u32 \<Rightarrow> bool"
  close_ok :: bool

definition dev_name :: string where
  "dev_name = ''/dev/video0''"

definition exit_failure :: "string \<Rightarrow> cam_state \<Rightarrow> stop" where
  "exit_failure msg s = Exited EXIT_FAILURE (s\<lparr>stderr := stderr s @ [msg]\<rparr>)"

subsection \<open>\<^verbatim>\<open>init_mmap\<close>\<close>

text \<open>A counter of type \<^verbatim>\<open>unsigned int\<close> below a bound can be incremented
  without wrapping: the loops over the buffers terminate.\<close>

lemma count_up_decreases:
  fixes i n :: u32
  assumes "i < n"
  shows "unat n - unat (i + 1) < unat n - unat i"
proof -
  from assms have lt: "unat i < unat n"
    by (simp add: word_less_nat_alt)
  moreover have "unat n < 2 ^ LENGTH(32)"
    by (rule unsigned_less)
  ultimately have "unat i + unat (1 :: u32) < 2 ^ LENGTH(32)"
    by simp
  then have "unat (i + 1) = unat i + 1"
    by (simp add: unat_add_lem [THEN iffD1])
  with lt show ?thesis by simp
qed

text \<open>\<^verbatim>\<open>for (n_buffers = 0; n_buffers < req.count; ++n_buffers)\<close>, from any
  value of \<^verbatim>\<open>n_buffers\<close>. A failed \<^verbatim>\<open>VIDIOC_QUERYBUF\<close> leaves the cleared
  \<^verbatim>\<open>buf\<close> (length 0, offset 0); with \<^verbatim>\<open>PRINT_ENABLE\<close> 0 neither it nor
  \<^verbatim>\<open>MAP_FAILED\<close> stops the loop.\<close>

function map_buffers :: "device \<Rightarrow> u32 \<Rightarrow> cam_state \<Rightarrow> stop + cam_state" where
  "map_buffers d count s =
    (if n_buffers s < count then
       (case xioctl (querybuf d (n_buffers s)) of
          None \<Rightarrow> Inl Pending
        | Some r \<Rightarrow>
            if (case r of IoErr e \<Rightarrow> True | IoOk a \<Rightarrow> False) \<and> PRINT_ENABLE = 1
            then Inl (errno_exit ''VIDIOC_QUERYBUF'' s)
            else
              let buf_length = (case r of IoErr e \<Rightarrow> 0 | IoOk (l, off) \<Rightarrow> l);
                  s1 = s\<lparr>buffers := (buffers s)
                         [unat (n_buffers s) :=
                            \<lparr>start = mmap_res d (n_buffers s), length_b = buf_length\<rparr>]\<rparr>
              in if mmap_res d (n_buffers s) = None \<and> PRINT_ENABLE = 1
                 then Inl (errno_exit ''mmap'' s1)
                 else map_buffers d count (s1\<lparr>n_buffers := n_buffers s1 + 1\<rparr>))
     else Inr s)"
  by pat_completeness auto
termination
  by (relation "measure (\<lambda>(d, count, s). unat count - unat (n_buffers s))") (auto simp: count_up_decreases)

declare map_buffers.simps [simp del]

text \<open>When \<^verbatim>\<open>VIDIOC_REQBUFS\<close> fails with an error other than \<^verbatim>\<open>EINVAL\<close>,
  \<^verbatim>\<open>req.count\<close> still holds the 6 the code asked for. \<^verbatim>\<open>calloc\<close> returns
  zeroed entries: \<^verbatim>\<open>start\<close> is the null pointer.\<close>

definition init_mmap :: "device \<Rightarrow> cam_state \<Rightarrow> stop + cam_state" where
  "init_mmap d s =
    (case xioctl (reqbufs d 6) of
       None \<Rightarrow> Inl Pending
     | Some r \<Rightarrow>
         if r = IoErr EINVAL
         then Inl (exit_failure (dev_name @ '' does not support memory mapping'' @ [NL]) s)
         else if (case r of IoErr e \<Rightarrow> True | IoOk a \<Rightarrow> False) \<and> PRINT_ENABLE = 1
         then Inl (errno_exit ''VIDIOC_REQBUFS'' s)
         else
           let count = (case r of IoErr e \<Rightarrow> 6 | IoOk c \<Rightarrow> c)
           in if count < 2
              then Inl (exit_failure (''Insufficient buffer memory on '' @ dev_name @ [NL]) s)
              else if \<not> calloc_ok d
              then Inl (exit_failure (''Out of memory'' @ [NL]) s)
              else map_buffers d count
                     (s\<lparr>buffers := replicate (unat count) \<lparr>start = Some 0, length_b = 0\<rparr>,
                        n_buffers := 0\<rparr>))"

subsection \<open>\<^verbatim>\<open>init_device\<close>\<close>

text \<open>"Buggy driver paranoia": the two comparisons of \<^verbatim>\<open>init_device\<close>, in
  \<^verbatim>\<open>unsigned int\<close> arithmetic.\<close>

definition paranoia :: "pix_format \<Rightarrow> pix_format" where
  "paranoia f =
    (let m = width f * 2;
         f1 = (if bytesperline f < m then f\<lparr>bytesperline := m\<rparr> else f);
         m' = bytesperline f1 * height f1
     in if sizeimage f1 < m' then f1\<lparr>sizeimage := m'\<rparr> else f1)"

definition cleared_format :: pix_format where
  "cleared_format =
     \<lparr>width = 0, height = 0, pixelformat = 0, field = 0, bytesperline = 0, sizeimage = 0\<rparr>"

text \<open>The format after \<^verbatim>\<open>VIDIOC_S_FMT\<close> or \<^verbatim>\<open>VIDIOC_G_FMT\<close>: what the
  driver wrote, or, when the call failed (which does not stop the code with
  \<^verbatim>\<open>PRINT_ENABLE\<close> 0), what the code had put there.\<close>

definition negotiate :: "device \<Rightarrow> cam_state \<Rightarrow> stop + pix_format" where
  "negotiate d s =
    (if force_format s \<noteq> 0 then
       (let f = cleared_format\<lparr>width := HRES, height := VRES,
                  pixelformat := V4L2_PIX_FMT_YUYV, field := V4L2_FIELD_NONE\<rparr>
        in case xioctl (s_fmt d) of
             None \<Rightarrow> Inl Pending
           | Some (IoErr e) \<Rightarrow>
               if PRINT_ENABLE = 1 then Inl (errno_exit ''VIDIOC_S_FMT'' (s\<lparr>fmt := f\<rparr>)) else Inr f
           | Some (IoOk f') \<Rightarrow> Inr f')
     else
       (case xioctl (g_fmt d) of
          None \<Rightarrow> Inl Pending
        | Some (IoErr e) \<Rightarrow>
            if PRINT_ENABLE = 1 then Inl (errno_exit ''VIDIOC_G_FMT'' (s\<lparr>fmt := cleared_format\<rparr>))
            else Inr cleared_format
        | Some (IoOk f') \<Rightarrow> Inr f'))"

text \<open>\<^verbatim>\<open>cap\<close> is not initialised: when \<^verbatim>\<open>VIDIOC_QUERYCAP\<close> fails with an
  error other than \<^verbatim>\<open>EINVAL\<close> the code reads it all the same.\<close>

definition init_device :: "device \<Rightarrow> cam_state \<Rightarrow> stop + cam_state" where
  "init_device d s =
    (case xioctl (querycap d) of
       None \<Rightarrow> Inl Pending
     | Some (IoErr e) \<Rightarrow>
         if e = EINVAL then Inl (exit_failure (dev_name @ '' is no V4L2 device'' @ [NL]) s)
         else if PRINT_ENABLE = 1 then Inl (errno_exit ''VIDIOC_QUERYCAP'' s)
         else Inl (Fault UninitializedRead)
     | Some (IoOk capabilities) \<Rightarrow>
         if and capabilities V4L2_CAP_VIDEO_CAPTURE = 0
         then Inl (exit_failure (dev_name @ '' is no video capture device'' @ [NL]) s)
         else if and capabilities V4L2_CAP_STREAMING = 0
         then Inl (exit_failure (dev_name @ '' does not support streaming i/o'' @ [NL]) s)
         else
           (case (case xioctl (cropcap d) of
                    None \<Rightarrow> None
                  | Some (IoErr e) \<Rightarrow> Some ()
                  | Some (IoOk u) \<Rightarrow>
                      (case xioctl (s_crop d) of None \<Rightarrow> None | Some r \<Rightarrow> Some ())) of
              None \<Rightarrow> Inl Pending
            | Some u \<Rightarrow>
                (case negotiate d s of
                   Inl x \<Rightarrow> Inl x
                 | Inr f \<Rightarrow> init_mmap d (s\<lparr>fmt := paranoia f\<rparr>))))"

subsection \<open>\<^verbatim>\<open>open_device\<close> and \<^verbatim>\<open>close_device\<close>\<close>

definition open_device :: "device \<Rightarrow> cam_state \<Rightarrow> stop + cam_state" where
  "open_device d s =
    (case stat_res d of
       None \<Rightarrow> Inl (exit_failure (''Cannot identify '' @ dev_name @ [NL]) s)
     | Some chr \<Rightarrow>
         if \<not> chr then Inl (exit_failure (dev_name @ '' is no device'' @ [NL]) s)
         else
           let s1 = s\<lparr>fd := open_res d\<rparr>
           in if fd s1 = - 1 then Inl (exit_failure (''Cannot open '' @ dev_name @ [NL]) s1)
              else Inr s1)"

definition close_device :: "device \<Rightarrow> cam_state \<Rightarrow> stop + cam_state" where
  "close_device d s =
    (if \<not> close_ok d \<and> PRINT_ENABLE = 1 then Inl (errno_exit ''close'' s)
     else Inr (s\<lparr>fd := - 1\<rparr>))"

subsection \<open>\<^verbatim>\<open>start_capturing\<close>, \<^verbatim>\<open>stop_capturing\<close>, \<^verbatim>\<open>uninit_device\<close>\<close>

function queue_buffers :: "device \<Rightarrow> u32 \<Rightarrow> cam_state \<Rightarrow> stop + cam_state" where
  "queue_buffers d i s =
    (if i < n_buffers s then
       (case xioctl (start_qbuf d i) of
          None \<Rightarrow> Inl Pending
        | Some (IoErr e) \<Rightarrow>
            if PRINT_ENABLE = 1 then Inl (errno_exit ''VIDIOC_QBUF'' s)
            else queue_buffers d (i + 1) s
        | Some (IoOk u) \<Rightarrow> queue_buffers d (i + 1) s)
     else Inr s)"
  by pat_completeness auto
termination
  by (relation "measure (\<lambda>(d, i, s). unat (n_buffers s) - unat i)") (auto simp: count_up_decreases)

declare queue_buffers.simps [simp del]

definition start_capturing :: "device \<Rightarrow> cam_state \<Rightarrow> stop + cam_state" where
  "start_capturing d s =
    (case queue_buffers d 0 s of
       Inl x \<Rightarrow> Inl x
     | Inr s1 \<Rightarrow>
         (case xioctl (streamon d) of
            None \<Rightarrow> Inl Pending
          | Some (IoErr e) \<Rightarrow>
              if PRINT_ENABLE = 1 then Inl (errno_exit ''VIDIOC_STREAMON'' s1) else Inr s1
          | Some (IoOk u) \<Rightarrow> Inr s1))"

definition stop_capturing :: "device \<Rightarrow> cam_state \<Rightarrow> stop + cam_state" where
  "stop_capturing d s =
    (case xioctl (streamoff d) of
       None \<Rightarrow> Inl Pending
     | Some (IoErr e) \<Rightarrow>
         if PRINT_ENABLE = 1 then Inl (errno_exit ''VIDIOC_STREAMOFF'' s) else Inr s
     | Some (IoOk u) \<Rightarrow> Inr s)"

function unmap_buffers :: "device \<Rightarrow> u32 \<Rightarrow> cam_state \<Rightarrow> stop + cam_state" where
  "unmap_buffers d i s =
    (if i < n_buffers s then
       (if \<not> munmap_ok d i \<and> PRINT_ENABLE = 1 then Inl (errno_exit ''munmap'' s)
        else unmap_buffers d (i + 1) s)
     else Inr s)"
  by pat_completeness auto
termination
  by (relation "measure (\<lambda>(d, i, s). unat (n_buffers s) - unat i)") (auto simp: count_up_decreases)

declare unmap_buffers.simps [simp del]

text \<open>\<^verbatim>\<open>free(buffers)\<close> leaves no array to read.\<close>

definition uninit_device :: "device \<Rightarrow> cam_state \<Rightarrow> stop + cam_state" where
  "uninit_device d s =
    (case unmap_buffers d 0 s of
       Inl x \<Rightarrow> Inl x
     | Inr s1 \<Rightarrow> Inr (s1\<lparr>buffers := []\<rparr>))"

subsection \<open>\<^verbatim>\<open>camera_capture\<close>\<close>

text \<open>The loop \<^verbatim>\<open>while(is_capture)\<close> is commented out in the source:
  \<^verbatim>\<open>capture_frame\<close> is called once, and the flag is written after it.\<close>

definition camera_capture :: "device \<Rightarrow> cam_state \<Rightarrow> stop + (int \<times> cam_state)" where
  "camera_capture d s =
    (case open_device d s of Inl x \<Rightarrow> Inl x | Inr s1 \<Rightarrow>
    (case init_device d s1 of Inl x \<Rightarrow> Inl x | Inr s2 \<Rightarrow>
    (case start_capturing d s2 of Inl x \<Rightarrow> Inl x | Inr s3 \<Rightarrow>
    (case capture_frame (ticks d) s3 of Inl x \<Rightarrow> Inl x | Inr s4 \<Rightarrow>
    (case stop_capturing d (s4\<lparr>is_capture := False\<rparr>) of Inl x \<Rightarrow> Inl x | Inr s5 \<Rightarrow>
    (case uninit_device d s5 of Inl x \<Rightarrow> Inl x | Inr s6 \<Rightarrow>
    (case close_device d s6 of Inl x \<Rightarrow> Inl x | Inr s7 \<Rightarrow>
       Inr (0, s7\<lparr>stderr := stderr s7 @ [[NL]]\<rparr>))))))))"

text \<open>The variables as the program starts, over a given file system.\<close>

definition initial_state :: "(string \<rightharpoonup> u8 list) \<Rightarrow> cam_state" where
  "initial_state fs =
     \<lparr>is_capture = True, fmt = cleared_format, fd = - 1, buffers = [], n_buffers = 0,
      force_format = 1, ppm_header = ppm_header_init, ppm_dumpname = ppm_dumpname_init,
      framecnt = 0, bigbuffer = (\<lambda>a. 0), files = fs, stdout = [], stderr = [], syslog = []\<rparr>"

subsection \<open>Notions of the specification, and a simulated device\<close>

text \<open>The transient conditions of the capture loop: a wait interrupted by a
  signal, and a wait that reports readiness followed by a dequeue that answers
  "try again" or with the I/O error some drivers use for non-fatal conditions.\<close>

definition transient :: "tick \<Rightarrow> bool" where
  "transient t =
    (case sel t of
       SelErr e \<Rightarrow> e = EINTR
     | SelTimeout \<Rightarrow> False
     | SelReady \<Rightarrow>
         xioctl (dqbuf t) = Some (IoErr EAGAIN) \<or> xioctl (dqbuf t) = Some (IoErr EIO))"

text \<open>An outcome with a function applied to the state it carries: two runs
  that differ in one variable only are compared through it.\<close>

fun stop_map :: "(cam_state \<Rightarrow> cam_state) \<Rightarrow> stop \<Rightarrow> stop" where
  "stop_map f (Exited c s) = Exited c (f s)"
| "stop_map f (Aborted s) = Aborted (f s)"
| "stop_map f (Fault x) = Fault x"
| "stop_map f Pending = Pending"

definition set_flag :: "bool \<Rightarrow> cam_state \<Rightarrow> cam_state" where
  "set_flag b s = s\<lparr>is_capture := b\<rparr>"

text \<open>The state of a session that streams: the forced 320x240 YUYV format
  and six mapped buffers of one frame each.\<close>

definition streaming_state :: "(string \<rightharpoonup> u8 list) \<Rightarrow> cam_state" where
  "streaming_state fs =
     (initial_state fs)
       \<lparr>fmt := \<lparr>width = HRES, height = VRES, pixelformat = V4L2_PIX_FMT_YUYV,
                field = V4L2_FIELD_NONE, bytesperline = 640, sizeimage = 153600\<rparr>,
        fd := 3,
        buffers := replicate 6 \<lparr>start = Some 4096, length_b = 153600\<rparr>,
        n_buffers := 6\<rparr>"

text \<open>A pass of the loop in which the device hands over buffer 0 filled with
  \<open>mem\<close>, the file system takes every write whole and the sleep is not
  interrupted.\<close>

definition frame_tick :: "u8 list \<Rightarrow> tick" where
  "frame_tick mem =
     \<lparr>signals = [], sel = SelReady, dqbuf = [IoOk (0, word_of_nat (length mem), mem)],
      clock = \<lparr>tv_sec = 1700000000, tv_nsec = 123456789\<rparr>, open_ok = True,
      hdr_write = Wrote 48, data_writes = [Wrote (length mem * 6 div 4)],
      qbuf = [IoOk ()], nanosleep_ret = 0\<rparr>"

text \<open>The entry of the pool the mapping loop writes for buffer \<open>i\<close>: the
  result of \<^verbatim>\<open>mmap\<close> and the length \<^verbatim>\<open>VIDIOC_QUERYBUF\<close> reported (0 when
  that call failed).\<close>

definition mapped_entry :: "device \<Rightarrow> u32 \<Rightarrow> buffer" where
  "mapped_entry d i =
     \<lparr>start = mmap_res d i,
      length_b = (case xioctl (querybuf d i) of Some (IoOk (l, off)) \<Rightarrow> l | _ \<Rightarrow> 0)\<rparr>"

text \<open>A simulated device: a character device that opens, captures and
  streams, accepts the forced format, grants the buffers asked for, maps each
  of them, and delivers one frame of 320x240 pixels within the timeout.\<close>

definition sim_format :: pix_format where
  "sim_format =
     \<lparr>width = HRES, height = VRES, pixelformat = V4L2_PIX_FMT_YUYV,
      field = V4L2_FIELD_NONE, bytesperline = 640, sizeimage = 153600\<rparr>"

definition sim_device :: device where
  "sim_device =
     \<lparr>stat_res = Some True, open_res = 3,
      querycap = [IoOk (or V4L2_CAP_VIDEO_CAPTURE V4L2_CAP_STREAMING)],
      cropcap = [IoErr EINVAL], s_crop = [],
      s_fmt = [IoOk sim_format], g_fmt = [IoOk sim_format],
      reqbufs = (\<lambda>n. [IoOk n]), calloc_ok = True,
      querybuf = (\<lambda>i. [IoOk (153600, 153600 * unat i)]),
      mmap_res = (\<lambda>i. Some (4096 + 153600 * unat i)),
      start_qbuf = (\<lambda>i. [IoOk ()]), streamon = [IoOk ()],
      ticks = [frame_tick (replicate 153600 0)],
      streamoff = [IoOk ()], munmap_ok = (\<lambda>i. True), close_ok = True\<rparr>"

section \<open>The colour conversion\<close>

subsection \<open>\<^verbatim>\<open>yuv2rgb\<close> on bytes computes the specified formula\<close>

lemma sint_in_range:
  "- (2 ^ 31) \<le> k \<Longrightarrow> k < 2 ^ 31 \<Longrightarrow> sint (word_of_int k :: 32 word) = k"
  by (simp add: sint_sbintrunc' signed_take_bit_int_eq_self)

lemma ucast_sint_8: "(ucast (w :: 32 word) :: 8 word) = word_of_int (sint w)"
  by (rule bit_word_eqI) (auto simp add: bit_simps)

lemma clip_word:
  fixes w :: "32 word"
  assumes "sint w = k"
  shows "(ucast (if (if 255 <s w then 255 else w) <s 0 then 0 else (if 255 <s w then 255 else w)) :: 8 word)
         = word_of_int (clamp_0_255 k)"
proof -
  have "sint (if (if 255 <s w then 255 else w) <s 0 then 0 else (if 255 <s w then 255 else w)) = clamp_0_255 k"
    using assms by (auto simp: word_sless_alt clamp_0_255_def)
  then show ?thesis by (simp only: ucast_sint_8)
qed

lemma shift_word:
  assumes "- (2 ^ 31) \<le> k" "k < 2 ^ 31"
  shows "sint (signed_drop_bit 8 (word_of_int k :: 32 word)) = drop_bit 8 k"
  using assms by (simp add: sint_signed_drop_bit_eq sint_in_range)

lemma uint8_bounds: "0 \<le> uint (y :: 8 word) \<and> uint y < 256"
  using uint_bounded [of y] by simp

lemma yuv2rgb_bytes:
  fixes y u v :: u8
  shows "yuv2rgb (ucast y) (ucast u) (ucast v) =
     (case spec_rgb (uint y) (uint u) (uint v) of
        (r, g, b) \<Rightarrow> (word_of_int r, word_of_int g, word_of_int b))"
proof -
  define Y U V where "Y = uint y" and "U = uint u" and "V = uint v"
  have b: "0 \<le> Y" "Y < 256" "0 \<le> U" "U < 256" "0 \<le> V" "V < 256"
    using uint8_bounds [of y] uint8_bounds [of u] uint8_bounds [of v]
    by (simp_all add: Y_def U_def V_def)
  have cy: "(ucast y :: 32 word) = word_of_int Y" and cu: "(ucast u :: 32 word) = word_of_int U"
    and cv: "(ucast v :: 32 word) = word_of_int V"
    unfolding Y_def U_def V_def by (rule ucast_eq)+
  have r: "(298 * (word_of_int Y - 16) + 409 * (word_of_int V - 128) + 128 :: 32 word)
      = word_of_int (298 * (Y - 16) + 409 * (V - 128) + 128)"
    by simp
  have g: "(298 * (word_of_int Y - 16) - 100 * (word_of_int U - 128) - 208 * (word_of_int V - 128) + 128 :: 32 word)
      = word_of_int (298 * (Y - 16) - 100 * (U - 128) - 208 * (V - 128) + 128)"
    by simp
  have bl: "(298 * (word_of_int Y - 16) + 516 * (word_of_int U - 128) + 128 :: 32 word)
      = word_of_int (298 * (Y - 16) + 516 * (U - 128) + 128)"
    by simp
  have sr: "sint (signed_drop_bit 8 (word_of_int (298 * (Y - 16) + 409 * (V - 128) + 128) :: 32 word))
      = drop_bit 8 (298 * (Y - 16) + 409 * (V - 128) + 128)"
    by (rule shift_word) (use b in simp_all)
  have sg: "sint (signed_drop_bit 8 (word_of_int (298 * (Y - 16) - 100 * (U - 128) - 208 * (V - 128) + 128) :: 32 word))
      = drop_bit 8 (298 * (Y - 16) - 100 * (U - 128) - 208 * (V - 128) + 128)"
    by (rule shift_word) (use b in simp_all)
  have sb: "sint (signed_drop_bit 8 (word_of_int (298 * (Y - 16) + 516 * (U - 128) + 128) :: 32 word))
      = drop_bit 8 (298 * (Y - 16) + 516 * (U - 128) + 128)"
    by (rule shift_word) (use b in simp_all)
  show ?thesis
    unfolding yuv2rgb_def spec_rgb_def Let_def cy cu cv r g bl Y_def [symmetric] U_def [symmetric] V_def [symmetric]
    by (simp only: clip_word [OF sr] clip_word [OF sg] clip_word [OF sb] prod.case)
qed

subsection \<open>The conversion loop\<close>

lemma passes_step:
  assumes "int i < sz"
  shows "passes sz i = Suc (passes sz (i + 4))"
proof -
  have "(sz - int i + 3) div 4 = (sz - int (i + 4) + 3) div 4 + 1"
    by simp
  moreover have "0 \<le> (sz - int (i + 4) + 3) div 4"
    using assms by simp
  ultimately show ?thesis
    unfolding passes_def by (simp add: nat_add_distrib)
qed

lemma convert_loop_step:
  assumes "int i < sz" and "\<not> length p \<le> i + 3" and "\<not> BIGBUFFER_SIZE \<le> newi + 5"
    and "yuv2rgb (ucast (p ! i)) (ucast (p ! (i + 1))) (ucast (p ! (i + 3))) = (r, g, b)"
    and "yuv2rgb (ucast (p ! (i + 2))) (ucast (p ! (i + 1))) (ucast (p ! (i + 3))) = (r2, g2, b2)"
  shows "convert_loop p sz i newi bb =
         convert_loop p sz (i + 4) (newi + 6)
           (bb(newi := r, newi + 1 := g, newi + 2 := b, newi + 3 := r2, newi + 4 := g2, newi + 5 := b2))"
  by (subst convert_loop.simps) (simp only: assms if_True if_False Let_def prod.case)

lemma passes_done: "\<not> int i < sz \<Longrightarrow> passes sz i = 0"
  unfolding passes_def by simp

lemma yuv2rgb_spec_pixel:
  "yuv2rgb (ucast y) (ucast u) (ucast v) = (r, g, b) \<Longrightarrow> spec_pixel y u v = [r, g, b]"
  by (auto simp: yuv2rgb_bytes spec_pixel_def split: prod.splits)

lemma convert_loop_result:
  "convert_loop p sz i newi bb = Inr bb' \<Longrightarrow>
   (\<forall>k j. k < passes sz i \<longrightarrow> j < 6 \<longrightarrow>
      bb' (newi + 6 * k + j) =
        spec_pair (p ! (i + 4 * k)) (p ! (i + 4 * k + 1)) (p ! (i + 4 * k + 2)) (p ! (i + 4 * k + 3)) ! j) \<and>
   (\<forall>a. a < newi \<or> newi + 6 * passes sz i \<le> a \<longrightarrow> bb' a = bb a)"
proof (induction p sz i newi bb rule: convert_loop.induct)
  case (1 pptr sz i newi bb)
  show ?case
  proof (cases "int i < sz")
    case False
    with "1.prems" show ?thesis
      by (simp add: convert_loop.simps [of pptr sz i newi bb] passes_done)
  next
    case True
    obtain r g b where p1: "yuv2rgb (ucast (pptr ! i)) (ucast (pptr ! (i + 1))) (ucast (pptr ! (i + 3))) = (r, g, b)"
      by (cases "yuv2rgb (ucast (pptr ! i)) (ucast (pptr ! (i + 1))) (ucast (pptr ! (i + 3)))") auto
    obtain r2 g2 b2 where p2: "yuv2rgb (ucast (pptr ! (i + 2))) (ucast (pptr ! (i + 1))) (ucast (pptr ! (i + 3))) = (r2, g2, b2)"
      by (cases "yuv2rgb (ucast (pptr ! (i + 2))) (ucast (pptr ! (i + 1))) (ucast (pptr ! (i + 3)))") auto
    define bb1 where "bb1 = bb(newi := r, newi + 1 := g, newi + 2 := b,
                         newi + 3 := r2, newi + 4 := g2, newi + 5 := b2)"
    from "1.prems" True have rd: "\<not> length pptr \<le> i + 3" and wr: "\<not> BIGBUFFER_SIZE \<le> newi + 5"
      by (auto simp: convert_loop.simps [of pptr sz i newi bb] Let_def split: if_splits)
    from "1.prems" have rec: "convert_loop pptr sz (i + 4) (newi + 6) bb1 = Inr bb'"
      unfolding convert_loop_step [OF True rd wr p1 p2] bb1_def .
    have IH: "(\<forall>k j. k < passes sz (i + 4) \<longrightarrow> j < 6 \<longrightarrow>
      bb' (newi + 6 + 6 * k + j) =
        spec_pair (pptr ! (i + 4 + 4 * k)) (pptr ! (i + 4 + 4 * k + 1)) (pptr ! (i + 4 + 4 * k + 2)) (pptr ! (i + 4 + 4 * k + 3)) ! j) \<and>
      (\<forall>a. a < newi + 6 \<or> newi + 6 + 6 * passes sz (i + 4) \<le> a \<longrightarrow> bb' a = bb1 a)"
      using "1.IH" [OF True rd refl refl refl refl wr p1 [symmetric] refl p2 [symmetric] refl] rec
      unfolding bb1_def by blast
    have sp: "spec_pair (pptr ! i) (pptr ! (i + 1)) (pptr ! (i + 2)) (pptr ! (i + 3)) = [r, g, b, r2, g2, b2]"
      unfolding spec_pair_def yuv2rgb_spec_pixel [OF p1] yuv2rgb_spec_pixel [OF p2] by simp
    have first: "bb' (newi + j) = [r, g, b, r2, g2, b2] ! j" if "j < 6" for j
    proof -
      have "bb' (newi + j) = bb1 (newi + j)" using IH that by simp
      also have "\<dots> = [r, g, b, r2, g2, b2] ! j"
        using that unfolding bb1_def
        by (cases j rule: nat.exhaust; simp add: nth_Cons split: nat.splits)
      finally show ?thesis .
    qed
    have ps: "passes sz i = Suc (passes sz (i + 4))" by (rule passes_step [OF True])
    show ?thesis
    proof (intro conjI allI impI)
      fix k j :: nat assume k: "k < passes sz i" and j: "j < 6"
      show "bb' (newi + 6 * k + j) =
        spec_pair (pptr ! (i + 4 * k)) (pptr ! (i + 4 * k + 1)) (pptr ! (i + 4 * k + 2)) (pptr ! (i + 4 * k + 3)) ! j"
      proof (cases k)
        case 0
        then show ?thesis using first [OF j] sp by simp
      next
        case (Suc k')
        with k ps have "k' < passes sz (i + 4)" by simp
        with IH j have "bb' (newi + 6 + 6 * k' + j) =
          spec_pair (pptr ! (i + 4 + 4 * k')) (pptr ! (i + 4 + 4 * k' + 1)) (pptr ! (i + 4 + 4 * k' + 2)) (pptr ! (i + 4 + 4 * k' + 3)) ! j"
          by blast
        then show ?thesis using Suc by (simp add: add.assoc)
      qed
    next
      fix a assume a: "a < newi \<or> newi + 6 * passes sz i \<le> a"
      then have "a < newi + 6 \<or> newi + 6 + 6 * passes sz (i + 4) \<le> a" using ps by auto
      with IH have "bb' a = bb1 a" by blast
      also have "\<dots> = bb a" using a ps unfolding bb1_def by auto
      finally show "bb' a = bb a" .
    qed
  qed
qed

lemma convert_loop_no_write_fault:
  "newi + 6 * passes sz i \<le> BIGBUFFER_SIZE \<Longrightarrow> convert_loop p sz i newi bb \<noteq> Inl WriteOutOfBounds"
proof (induction p sz i newi bb rule: convert_loop.induct)
  case (1 pptr sz i newi bb)
  show ?case
  proof (cases "int i < sz")
    case False
    then show ?thesis by (simp add: convert_loop.simps [of pptr sz i newi bb])
  next
    case True
    have ps: "passes sz i = Suc (passes sz (i + 4))" by (rule passes_step [OF True])
    with "1.prems" have wr: "\<not> BIGBUFFER_SIZE \<le> newi + 5"
      and nx: "newi + 6 + 6 * passes sz (i + 4) \<le> BIGBUFFER_SIZE" by simp_all
    show ?thesis
    proof (cases "length pptr \<le> i + 3")
      case True
      with \<open>int i < sz\<close> show ?thesis by (simp add: convert_loop.simps [of pptr sz i newi bb])
    next
      case False
      obtain r g b where p1: "yuv2rgb (ucast (pptr ! i)) (ucast (pptr ! (i + 1))) (ucast (pptr ! (i + 3))) = (r, g, b)"
        by (cases "yuv2rgb (ucast (pptr ! i)) (ucast (pptr ! (i + 1))) (ucast (pptr ! (i + 3)))") auto
      obtain r2 g2 b2 where p2: "yuv2rgb (ucast (pptr ! (i + 2))) (ucast (pptr ! (i + 1))) (ucast (pptr ! (i + 3))) = (r2, g2, b2)"
        by (cases "yuv2rgb (ucast (pptr ! (i + 2))) (ucast (pptr ! (i + 1))) (ucast (pptr ! (i + 3)))") auto
      show ?thesis
        unfolding convert_loop_step [OF \<open>int i < sz\<close> False wr p1 p2]
        by (rule "1.IH" [OF \<open>int i < sz\<close> False refl refl refl refl wr p1 [symmetric] refl p2 [symmetric] refl nx])
    qed
  qed
qed

lemma convert_loop_returns:
  "i + 4 * passes sz i \<le> length p \<Longrightarrow> newi + 6 * passes sz i \<le> BIGBUFFER_SIZE \<Longrightarrow>
   \<exists>bb'. convert_loop p sz i newi bb = Inr bb'"
proof (induction p sz i newi bb rule: convert_loop.induct)
  case (1 pptr sz i newi bb)
  show ?case
  proof (cases "int i < sz")
    case False
    then show ?thesis by (simp add: convert_loop.simps [of pptr sz i newi bb])
  next
    case True
    have ps: "passes sz i = Suc (passes sz (i + 4))" by (rule passes_step [OF True])
    with "1.prems" have wr: "\<not> BIGBUFFER_SIZE \<le> newi + 5"
      and nx: "newi + 6 + 6 * passes sz (i + 4) \<le> BIGBUFFER_SIZE" 
      and rd: "\<not> length pptr \<le> i + 3" and nr: "i + 4 + 4 * passes sz (i + 4) \<le> length pptr" by simp_all
    obtain r g b where p1: "yuv2rgb (ucast (pptr ! i)) (ucast (pptr ! (i + 1))) (ucast (pptr ! (i + 3))) = (r, g, b)"
      by (cases "yuv2rgb (ucast (pptr ! i)) (ucast (pptr ! (i + 1))) (ucast (pptr ! (i + 3)))") auto
    obtain r2 g2 b2 where p2: "yuv2rgb (ucast (pptr ! (i + 2))) (ucast (pptr ! (i + 1))) (ucast (pptr ! (i + 3))) = (r2, g2, b2)"
      by (cases "yuv2rgb (ucast (pptr ! (i + 2))) (ucast (pptr ! (i + 1))) (ucast (pptr ! (i + 3)))") auto
    show ?thesis
      unfolding convert_loop_step [OF True rd wr p1 p2]
      by (rule "1.IH" [OF True rd refl refl refl refl wr p1 [symmetric] refl p2 [symmetric] refl nr nx])
  qed
qed

lemma passes_bound: "sz \<le> 819200 \<Longrightarrow> 6 * passes sz 0 \<le> BIGBUFFER_SIZE"
  unfolding passes_def BIGBUFFER_SIZE_def by simp

text \<open>
  Claim C1. For a frame whose quadruples can all be read and whose size is at
  most 819200 bytes, the loop returns, and for every quadruple
  \<open>(Y0, U, Y1, V)\<close> at offset \<open>4 * k\<close> the six bytes at offset \<open>6 * k\<close> of
  \<^verbatim>\<open>bigbuffer\<close> are the pixel of \<open>(Y0, U, V)\<close> followed by the pixel of
  \<open>(Y1, U, V)\<close>, each channel by the integer formula of the specification,
  clamped to 0..255 (\<^const>\<open>spec_pixel\<close>, \<^const>\<open>spec_rgb\<close>); nothing else of
  the buffer changes.
\<close>

theorem yuyv_pairs_share_chroma:
  assumes "4 * passes sz 0 \<le> length p" and "sz \<le> 819200"
  shows "\<exists>bb'. convert_loop p sz 0 0 bb = Inr bb' \<and>
     (\<forall>k<passes sz 0.
        map bb' [6 * k ..< 6 * k + 6] =
          spec_pixel (p ! (4 * k)) (p ! (4 * k + 1)) (p ! (4 * k + 3)) @
          spec_pixel (p ! (4 * k + 2)) (p ! (4 * k + 1)) (p ! (4 * k + 3))) \<and>
     (\<forall>a\<ge>6 * passes sz 0. bb' a = bb a)"
proof -
  from assms obtain bb' where r: "convert_loop p sz 0 0 bb = Inr bb'"
    using convert_loop_returns [of 0 sz p 0 bb] passes_bound [of sz] by auto
  note res = convert_loop_result [OF r]
  have "map bb' [6 * k ..< 6 * k + 6] =
          spec_pixel (p ! (4 * k)) (p ! (4 * k + 1)) (p ! (4 * k + 3)) @
          spec_pixel (p ! (4 * k + 2)) (p ! (4 * k + 1)) (p ! (4 * k + 3))"
    if k: "k < passes sz 0" for k
  proof (rule nth_equalityI)
    show "length (map bb' [6 * k ..< 6 * k + 6]) =
      length (spec_pixel (p ! (4 * k)) (p ! (4 * k + 1)) (p ! (4 * k + 3)) @
          spec_pixel (p ! (4 * k + 2)) (p ! (4 * k + 1)) (p ! (4 * k + 3)))"
      by (simp add: spec_pixel_def split: prod.splits)
  next
    fix j assume "j < length (map bb' [6 * k ..< 6 * k + 6])"
    then have j: "j < 6" by simp
    with res k have "bb' (0 + 6 * k + j) =
        spec_pair (p ! (0 + 4 * k)) (p ! (0 + 4 * k + 1)) (p ! (0 + 4 * k + 2)) (p ! (0 + 4 * k + 3)) ! j"
      by blast
    with j show "map bb' [6 * k ..< 6 * k + 6] ! j =
      (spec_pixel (p ! (4 * k)) (p ! (4 * k + 1)) (p ! (4 * k + 3)) @
          spec_pixel (p ! (4 * k + 2)) (p ! (4 * k + 1)) (p ! (4 * k + 3))) ! j"
      by (simp add: spec_pair_def)
  qed
  moreover have "bb' a = bb a" if "6 * passes sz 0 \<le> a" for a
    using res that by simp
  ultimately show ?thesis using r by blast
qed

lemma spec_pixel_black: "spec_pixel 16 128 128 = [0, 0, 0]"
  by (simp add: spec_pixel_def spec_rgb_def clamp_0_255_def drop_bit_eq_div)

lemma spec_pixel_white: "spec_pixel 235 128 128 = [255, 255, 255]"
  by (simp add: spec_pixel_def spec_rgb_def clamp_0_255_def drop_bit_eq_div)

theorem yuyv_pairs_share_chroma_witness:
  "\<exists>bb'. convert_loop [16, 128, 235, 128] 4 0 0 (\<lambda>a. 7) = Inr bb' \<and>
     map bb' [0 ..< 6] = [0, 0, 0, 255, 255, 255] \<and> bb' 6 = 7"
proof -
  have p: "passes 4 0 = 1" by (simp add: passes_def)
  from yuyv_pairs_share_chroma [of 4 "[16, 128, 235, 128]" "\<lambda>a. 7"]
  obtain bb' where r: "convert_loop [16, 128, 235, 128] 4 0 0 (\<lambda>a. 7) = Inr bb'"
    and k: "\<forall>k<1. map bb' [6 * k ..< 6 * k + 6] =
          spec_pixel ([16, 128, 235, 128] ! (4 * k)) ([16, 128, 235, 128] ! (4 * k + 1)) ([16, 128, 235, 128] ! (4 * k + 3)) @
          spec_pixel ([16, 128, 235, 128] ! (4 * k + 2)) ([16, 128, 235, 128] ! (4 * k + 1)) ([16, 128, 235, 128] ! (4 * k + 3))"
    and a: "\<forall>a\<ge>6. bb' a = 7"
    unfolding p by auto
  from k have "map bb' [0 ..< 6] = spec_pixel 16 128 128 @ spec_pixel 235 128 128"
    by simp
  with r a show ?thesis
    by (simp only: spec_pixel_black spec_pixel_white) simp
qed

text \<open>
  Claim C10. For a frame of at most 819200 bytes every pass \<open>k\<close> of the loop
  writes below the end of \<^verbatim>\<open>bigbuffer\<close> (its last index is \<open>6 * k + 5\<close>), so
  the loop never writes out of bounds; 153600 bytes, the size of a 320x240
  frame, are within the bound.
\<close>

theorem scratch_buffer_bound:
  assumes "sz \<le> 819200"
  shows "(\<forall>k<passes sz 0. 6 * k + 5 < BIGBUFFER_SIZE) \<and>
         convert_loop p sz 0 0 bb \<noteq> Inl WriteOutOfBounds"
proof
  from passes_bound [OF assms] show "\<forall>k<passes sz 0. 6 * k + 5 < BIGBUFFER_SIZE"
    by auto
  from passes_bound [OF assms] show "convert_loop p sz 0 0 bb \<noteq> Inl WriteOutOfBounds"
    by (intro convert_loop_no_write_fault) simp
qed

theorem scratch_buffer_bound_witness:
  "(153600 :: int) \<le> 819200 \<and> 6 * (passes 153600 0 - 1) + 5 < BIGBUFFER_SIZE \<and>
   convert_loop (replicate 153600 0) 153600 0 0 (\<lambda>a. 0) \<noteq> Inl WriteOutOfBounds"
  using scratch_buffer_bound [of 153600 "replicate 153600 0" "\<lambda>a. 0"]
  by (simp add: passes_def BIGBUFFER_SIZE_def)

section \<open>Formatting the file name and the header\<close>

lemma is_digit_nth: "n < 10 \<Longrightarrow> is_digit (''0123456789'' ! n)"
  unfolding is_digit_def by (rule nth_mem) simp

lemma is_digit_not_NUL: "is_digit c \<Longrightarrow> c \<noteq> NUL"
  by (auto simp: is_digit_def NUL_def)

lemma digits10_digits: "list_all is_digit (digits10 n)"
proof (induction n rule: digits10.induct)
  case (1 n)
  show ?case
  proof (cases "n < 10")
    case True
    then show ?thesis
      by (subst digits10.simps) (simp add: is_digit_nth)
  next
    case False
    with "1.IH" show ?thesis
      by (subst digits10.simps) (simp add: is_digit_nth)
  qed
qed

lemma digits10_length: "n < 10 ^ w \<Longrightarrow> 0 < w \<Longrightarrow> length (digits10 n) \<le> w"
proof (induction n arbitrary: w rule: digits10.induct)
  case (1 n)
  show ?case
  proof (cases "n < 10")
    case True
    with "1.prems" show ?thesis by (subst digits10.simps) simp
  next
    case False
    with "1.prems" have w: "1 < w" by (cases "w = 1") auto
    then obtain w' where w': "w = Suc w'" "0 < w'" by (cases w) auto
    from "1.prems" w' have "n div 10 < 10 ^ w'"
      by (simp add: less_mult_imp_div_less mult.commute)
    from "1.IH" [OF False this w'(2)] w' False show ?thesis
      by (subst digits10.simps) simp
  qed
qed

lemma digits10_small: "n < 10 \<Longrightarrow> digits10 n = [''0123456789'' ! n]"
  by (subst digits10.simps) simp

lemma digits10_big: "10 \<le> n \<Longrightarrow> digits10 n = digits10 (n div 10) @ [''0123456789'' ! (n mod 10)]"
  by (subst digits10.simps) simp

lemma replicate_num: "replicate (numeral k) x = x # replicate (pred_numeral k) x"
  by (simp add: numeral_eq_Suc)

lemma printf_0d_digits: "0 \<le> k \<Longrightarrow> list_all is_digit (printf_0d w k)"
  using digits10_digits [of "nat k"] is_digit_nth [of 0]
  by (auto simp: printf_0d_def list_all_iff)

lemma printf_0d_no_NUL: "NUL \<notin> set (printf_0d w k)"
proof -
  have "NUL \<notin> set (digits10 n)" for n
    using digits10_digits [of n] is_digit_not_NUL by (auto simp: list_all_iff)
  then show ?thesis
    by (auto simp: printf_0d_def NUL_def)
qed

lemma printf_0d_length_ge: "w \<le> length (printf_0d w k)"
  by (auto simp: printf_0d_def)

lemma printf_0d_length: "0 \<le> k \<Longrightarrow> k < 10 ^ w \<Longrightarrow> 0 < w \<Longrightarrow> length (printf_0d w k) = w"
proof -
  assume a: "0 \<le> k" "k < 10 ^ w" "0 < w"
  then have "nat k < 10 ^ w"
    by (simp add: nat_less_iff)
  from digits10_length [OF this a(3)] a(1) show ?thesis
    by (simp add: printf_0d_def)
qed

lemma take_printf_length: "length (take w (printf_0d w k)) = w"
  using printf_0d_length_ge [of w k] by simp

lemma take_printf_no_NUL: "NUL \<notin> set (take w (printf_0d w k))"
  using printf_0d_no_NUL [of w k] by (auto dest: in_set_takeD)

lemma printf_0d_8_1: "printf_0d 8 1 = ''00000001''"
  by code_simp

lemma poke_at:
  "length a = off \<Longrightarrow> length b = length bs \<Longrightarrow> poke off bs (a @ b @ c) = Inr (a @ bs @ c)"
  by (simp add: poke_def)

lemma strlen_from_at:
  assumes "length a = off" and "NUL \<notin> set b"
  shows "strlen_from off (a @ b @ NUL # c) = Inr (length b)"
proof -
  have "takeWhile (\<lambda>c. c \<noteq> NUL) (b @ NUL # c) = b"
    using assms(2) by (induction b) auto
  with assms(1) show ?thesis
    by (simp add: strlen_from_def)
qed

lemma min_printf: "min (length (printf_0d w k)) w = w"
  using printf_0d_length_ge [of w k] by simp

lemma format_name_1:
  assumes "length dn = 24"
  shows "snprintf_0d 11 9 8 k dn = Inr (take 11 dn @ take 8 (printf_0d 8 k) @ NUL # drop 20 dn)"
  using assms by (simp add: snprintf_0d_def poke_def min_printf)

lemma format_name_2:
  assumes "length a = 11" and "length d = 8" and "NUL \<notin> set d" and "length c = 4"
  shows "strncat 15 ''.ppm'' 5 (a @ d @ NUL # c) = Inr (a @ d @ ''.ppm'' @ [NUL])"
proof -
  have "strlen_from 15 ((a @ take 4 d) @ drop 4 d @ NUL # c) = Inr (length (drop 4 d))"
    by (rule strlen_from_at) (use assms in \<open>auto dest: in_set_dropD\<close>)
  moreover have "take 4 d @ drop 4 d @ NUL # c = d @ NUL # c"
    by (simp flip: append_assoc)
  ultimately have s: "strlen_from 15 (a @ d @ NUL # c) = Inr 4"
    using assms(2) by simp
  have p: "poke 19 (''.ppm'' @ [NUL]) (a @ d @ NUL # c) = Inr (a @ d @ ''.ppm'' @ [NUL])"
    using assms by (simp add: poke_def)
  show ?thesis
    unfolding strncat_def s using p by simp
qed

lemma format_name:
  assumes "length dn = 24"
  shows "\<exists>n1. snprintf_0d 11 9 8 k dn = Inr n1 \<and>
     strncat 15 ''.ppm'' 5 n1 = Inr (take 11 dn @ take 8 (printf_0d 8 k) @ ''.ppm'' @ [NUL])"
proof -
  have "strncat 15 ''.ppm'' 5 (take 11 dn @ take 8 (printf_0d 8 k) @ NUL # drop 20 dn)
      = Inr (take 11 dn @ take 8 (printf_0d 8 k) @ ''.ppm'' @ [NUL])"
    by (rule format_name_2) (simp_all add: assms min_printf take_printf_no_NUL)
  with format_name_1 [OF assms] show ?thesis by simp
qed

lemma format_header_2:
  assumes "length a = 4" and "length d = 10" and "length c = 34"
  shows "strncat 14 '' sec  '' 5 (a @ d @ NUL # c) = Inr (a @ d @ '' sec '' @ NUL # drop 5 c)"
proof -
  have "strlen_from 14 ((a @ d) @ [] @ NUL # c) = Inr (length ([] :: string))"
    by (rule strlen_from_at) (use assms in auto)
  then have s: "strlen_from 14 (a @ d @ NUL # c) = Inr 0"
    by simp
  have p: "poke 14 ('' sec '' @ [NUL]) (a @ d @ NUL # c) = Inr (a @ d @ '' sec '' @ NUL # drop 5 c)"
    using assms by (simp add: poke_def)
  show ?thesis
    unfolding strncat_def s using p by simp
qed

lemma format_header_1:
  assumes "length h = 49"
  shows "snprintf_0d 4 11 10 k h = Inr (take 4 h @ take 10 (printf_0d 10 k) @ NUL # drop 15 h)"
  using assms by (simp add: snprintf_0d_def poke_def min_printf)

lemma format_header_3:
  assumes "length a = 19" and "length c = 29"
  shows "snprintf_0d 19 11 10 k (a @ NUL # c) = Inr (a @ take 10 (printf_0d 10 k) @ NUL # drop 10 c)"
  using assms by (simp add: snprintf_0d_def poke_def min_printf)

lemma format_header_4:
  assumes "length a = 29" and "length c = 19" and "length tail = 19"
  shows "strcat 29 tail (a @ NUL # c) = Inr (a @ tail @ [NUL])"
proof -
  have "strlen_from 29 (a @ [] @ NUL # c) = Inr (length ([] :: string))"
    by (rule strlen_from_at) (use assms in auto)
  then have s: "strlen_from 29 (a @ NUL # c) = Inr 0"
    by simp
  have p: "poke 29 (tail @ [NUL]) (a @ NUL # c) = Inr (a @ tail @ [NUL])"
    using assms by (simp add: poke_def)
  show ?thesis
    unfolding strcat_def s using p by simp
qed

lemma format_header:
  assumes "length h = 49"
  shows "\<exists>h1 h2 h3. snprintf_0d 4 11 10 k h = Inr h1 \<and> strncat 14 '' sec  '' 5 h1 = Inr h2 \<and>
     snprintf_0d 19 11 10 m h2 = Inr h3 \<and>
     strcat 29 ppm_tail h3 =
       Inr (take 4 h @ take 10 (printf_0d 10 k) @ '' sec '' @ take 10 (printf_0d 10 m) @ ppm_tail @ [NUL])"
proof -
  let ?S = "take 10 (printf_0d 10 k)" and ?M = "take 10 (printf_0d 10 m)"
  have 1: "snprintf_0d 4 11 10 k h = Inr (take 4 h @ ?S @ NUL # drop 15 h)"
    by (rule format_header_1 [OF assms])
  have 2: "strncat 14 '' sec  '' 5 (take 4 h @ ?S @ NUL # drop 15 h)
      = Inr (take 4 h @ ?S @ '' sec '' @ NUL # drop 5 (drop 15 h))"
    by (rule format_header_2) (simp_all add: assms min_printf)
  have 3: "snprintf_0d 19 11 10 m ((take 4 h @ ?S @ '' sec '') @ NUL # drop 5 (drop 15 h))
      = Inr ((take 4 h @ ?S @ '' sec '') @ ?M @ NUL # drop 10 (drop 5 (drop 15 h)))"
    by (rule format_header_3) (simp_all add: assms min_printf)
  have 4: "strcat 29 ppm_tail ((take 4 h @ ?S @ '' sec '' @ ?M) @ NUL # drop 10 (drop 5 (drop 15 h)))
      = Inr ((take 4 h @ ?S @ '' sec '' @ ?M) @ ppm_tail @ [NUL])"
    by (rule format_header_4) (simp_all add: assms min_printf ppm_tail_def HRES_STR_def VRES_STR_def)
  from 1 2 3 4 show ?thesis by simp
qed

lemma frame_name_no_NUL: "NUL \<notin> set (frame_name tag)"
  using take_printf_no_NUL [of 8 "sint tag"] by (simp add: frame_name_def NUL_def)

lemma c_str_frame_name: "c_str (frame_name tag @ [NUL]) = frame_name tag"
proof -
  have "takeWhile (\<lambda>c. c \<noteq> NUL) (xs @ [NUL]) = xs" if "NUL \<notin> set xs" for xs
    using that by (induction xs) auto
  from this [OF frame_name_no_NUL] show ?thesis
    by (simp add: c_str_def)
qed

lemma length_frame_header: "length (frame_header time) = 48"
  by (simp add: frame_header_def ppm_tail_def HRES_STR_def VRES_STR_def min_printf)

lemma dump_ppm_eval:
  assumes "arrays_ok s" and "0 \<le> sz" and "sz \<le> int BIGBUFFER_SIZE"
  shows "dump_ppm t p sz tag time s =
    (let name = frame_name tag;
         hdr = frame_header time;
         fs0 = sys_open_creat (open_ok t) name (files s);
         written = sys_write (open_ok t) (hdr_write t) 48;
         fs1 = file_put name 0 (take (nat written) (map of_char hdr)) fs0
     in case write_loop (data_writes t) (open_ok t) name (map p [0..<nat sz]) sz 0 (nat written) fs1 of
          None \<Rightarrow> Inl Pending
        | Some fs2 \<Rightarrow>
            Inr (s\<lparr>ppm_header := hdr @ [NUL], ppm_dumpname := name @ [NUL], files := fs2,
                   stdout := stdout s @ [''Wrote a frame'' @ [NL]]\<rparr>))"
proof -
  from assms(1) have ln: "length (ppm_dumpname s) = 24" and pn: "take 11 (ppm_dumpname s) = ''frames/test''"
    and lh: "length (ppm_header s) = 49" and ph: "take 4 (ppm_header s) = ''P6'' @ [NL] @ ''#''"
    by (simp_all add: arrays_ok_def)
  from format_name [OF ln, of "sint tag"] obtain n1 where
    n1: "snprintf_0d 11 9 8 (sint tag) (ppm_dumpname s) = Inr n1"
    and n2: "strncat 15 ''.ppm'' 5 n1 = Inr (frame_name tag @ [NUL])"
    by (auto simp: frame_name_def pn)
  from format_header [OF lh, of "to_c_int (tv_sec time)" "to_c_int (c_div (tv_nsec time) 1000000)"]
  obtain h1 h2 h3 where
    h1: "snprintf_0d 4 11 10 (to_c_int (tv_sec time)) (ppm_header s) = Inr h1"
    and h2: "strncat 14 '' sec  '' 5 h1 = Inr h2"
    and h3: "snprintf_0d 19 11 10 (to_c_int (c_div (tv_nsec time) 1000000)) h2 = Inr h3"
    and h4: "strcat 29 ppm_tail h3 = Inr (frame_header time @ [NUL])"
    by (auto simp: frame_header_def ph)
  from assms(2,3) have b: "\<not> (sz < 0 \<or> int BIGBUFFER_SIZE < sz)"
    by simp
  show ?thesis
    unfolding dump_ppm_def n1 n2 h1 h2 h3 h4 Let_def sum.case c_str_frame_name if_not_P [OF b]
    by (simp add: length_frame_header cong: option.case_cong)
qed

section \<open>Writing one frame\<close>

lemma sys_write_full: "n \<le> k \<Longrightarrow> sys_write True (Wrote k) n = int n"
  by (simp add: sys_write_def)

lemma write_loop_full:
  assumes "length p = nat sz" and "0 \<le> sz" and "length p \<le> k"
  shows "write_loop (Wrote k # ws) True name p sz 0 off fs = Some (file_put name off p fs)"
  using assms by (simp add: sys_write_full Let_def)

lemma file_put_append:
  "off = length c \<Longrightarrow> file_put name off bs (fs(name \<mapsto> c)) = fs(name \<mapsto> c @ bs)"
  by (simp add: file_put_def)

lemma dump_ppm_fresh:
  assumes "arrays_ok s" and "0 \<le> sz" and "sz \<le> int BIGBUFFER_SIZE"
    and "open_ok t" and "hdr_write t = Wrote h" and "48 \<le> h"
    and "data_writes t = Wrote k # ws" and "nat sz \<le> k"
    and "files s (frame_name tag) = None"
  shows "dump_ppm t p sz tag time s =
    Inr (s\<lparr>ppm_header := frame_header time @ [NUL], ppm_dumpname := frame_name tag @ [NUL],
           files := (files s)(frame_name tag \<mapsto> map of_char (frame_header time) @ map p [0..<nat sz]),
           stdout := stdout s @ [''Wrote a frame'' @ [NL]]\<rparr>)"
proof -
  have w: "sys_write (open_ok t) (hdr_write t) 48 = 48"
    using assms(4,5,6) by (simp add: sys_write_def)
  have o: "sys_open_creat (open_ok t) (frame_name tag) (files s) = (files s)(frame_name tag \<mapsto> [])"
    using assms(4,9) by (simp add: sys_open_creat_def)
  have f1: "file_put (frame_name tag) 0 (take (nat 48) (map of_char (frame_header time)))
         ((files s)(frame_name tag \<mapsto> []))
      = (files s)(frame_name tag \<mapsto> [] @ map of_char (frame_header time))"
    by (subst file_put_append) (simp_all add: length_frame_header)
  have wl: "write_loop (data_writes t) (open_ok t) (frame_name tag) (map p [0..<nat sz]) sz 0 (nat 48)
       ((files s)(frame_name tag \<mapsto> [] @ map of_char (frame_header time)))
      = Some (file_put (frame_name tag) (nat 48) (map p [0..<nat sz])
           ((files s)(frame_name tag \<mapsto> [] @ map of_char (frame_header time))))"
  proof -
    have ok: "open_ok t = True" using assms(4) by simp
    show ?thesis
      unfolding assms(7) ok by (rule write_loop_full) (use assms(2,8) in simp_all)
  qed
  have f2: "file_put (frame_name tag) (nat 48) (map p [0..<nat sz])
           ((files s)(frame_name tag \<mapsto> [] @ map of_char (frame_header time)))
      = (files s)(frame_name tag \<mapsto> ([] @ map of_char (frame_header time)) @ map p [0..<nat sz])"
    by (subst file_put_append) (simp_all add: length_frame_header)
  show ?thesis
    unfolding dump_ppm_eval [OF assms(1,2,3)] Let_def w o f1 wl f2 by simp
qed

lemma process_image_yuyv:
  assumes "pixelformat (fmt s) = V4L2_PIX_FMT_YUYV"
    and "convert_loop p sz 0 0 (bigbuffer s) = Inr bb"
  shows "process_image t p sz s =
     dump_ppm t bb (c_div (sz * 6) 4) (framecnt s + 1) (clock t)
       (s\<lparr>framecnt := framecnt s + 1, bigbuffer := bb\<rparr>)"
  using assms by (simp add: process_image_def Let_def)


lemma fold_signalHandler_fields:
  "fmt (fold signalHandler sg s) = fmt s"
  "buffers (fold signalHandler sg s) = buffers s"
  "n_buffers (fold signalHandler sg s) = n_buffers s"
  "ppm_header (fold signalHandler sg s) = ppm_header s"
  "ppm_dumpname (fold signalHandler sg s) = ppm_dumpname s"
  "framecnt (fold signalHandler sg s) = framecnt s"
  "bigbuffer (fold signalHandler sg s) = bigbuffer s"
  "files (fold signalHandler sg s) = files s"
  "stdout (fold signalHandler sg s) = stdout s"
  "stderr (fold signalHandler sg s) = stderr s"
proof (induction sg arbitrary: s)
  case Nil
  { case 1 show ?case by simp }
  { case 2 show ?case by simp }
  { case 3 show ?case by simp }
  { case 4 show ?case by simp }
  { case 5 show ?case by simp }
  { case 6 show ?case by simp }
  { case 7 show ?case by simp }
  { case 8 show ?case by simp }
  { case 9 show ?case by simp }
  { case 10 show ?case by simp }
next
  case (Cons a sg)
  { case 1 show ?case by (cases a) (simp_all add: Cons.IH(1)) }
  { case 2 show ?case by (cases a) (simp_all add: Cons.IH(2)) }
  { case 3 show ?case by (cases a) (simp_all add: Cons.IH(3)) }
  { case 4 show ?case by (cases a) (simp_all add: Cons.IH(4)) }
  { case 5 show ?case by (cases a) (simp_all add: Cons.IH(5)) }
  { case 6 show ?case by (cases a) (simp_all add: Cons.IH(6)) }
  { case 7 show ?case by (cases a) (simp_all add: Cons.IH(7)) }
  { case 8 show ?case by (cases a) (simp_all add: Cons.IH(8)) }
  { case 9 show ?case by (cases a) (simp_all add: Cons.IH(9)) }
  { case 10 show ?case by (cases a) (simp_all add: Cons.IH(10)) }
qed

section \<open>One pass of the capture loop with a frame\<close>

lemma read_frame_ok:
  assumes "xioctl (dqbuf t) = Some (IoOk (index, used, mem))" and "index < n_buffers s"
    and "process_image t (frame_memory (buffers s) index mem) (sint used) s = Inr s'"
    and "xioctl (qbuf t) \<noteq> None"
  shows "read_frame t s = Inr (1, s')"
proof -
  from assms(4) obtain r where r: "xioctl (qbuf t) = Some r" by auto
  show ?thesis
    unfolding read_frame_def read_frame_buf_def assms(1) r
    using assms(2,3) by (cases r) (simp_all add: PRINT_ENABLE_def)
qed

lemma capture_frame_ready:
  assumes "sel t = SelReady" and "read_frame t (fold signalHandler (signals t) s) = Inr (1, s')"
    and "nanosleep_ret t = 0"
  shows "capture_frame (t # ts) s = Inr s'"
  using assms by (simp add: capture_frame.simps Let_def)

lemma to_c_int_id: "- (2 ^ 31) \<le> k \<Longrightarrow> k < 2 ^ 31 \<Longrightarrow> to_c_int k = k"
  unfolding to_c_int_def by (rule sint_in_range)

lemma c_div_nonneg: "0 \<le> a \<Longrightarrow> 0 < b \<Longrightarrow> c_div a b = a div b"
  by (cases "a = 0") (simp_all add: c_div_def)

lemma frame_name_1: "frame_name 1 = ''frames/test00000001.ppm''"
  by (simp add: frame_name_def printf_0d_8_1)

lemma frame_header_now:
  assumes "0 \<le> tv_sec time" and "tv_sec time < 2 ^ 31"
    and "0 \<le> tv_nsec time" and "tv_nsec time < 10 ^ 9"
  shows "frame_header time =
     ''P6'' @ [NL] @ ''#'' @ printf_0d 10 (tv_sec time) @ '' sec '' @
     printf_0d 10 (tv_nsec time div 1000000) @ '' msec '' @ [NL] @ ''320 240'' @ [NL] @ ''255'' @ [NL]"
proof -
  have s: "to_c_int (tv_sec time) = tv_sec time"
    using assms(1,2) by (simp add: to_c_int_id)
  have "tv_nsec time div 1000000 < 1000"
    using assms(4) by simp
  moreover have "0 \<le> tv_nsec time div 1000000"
    using assms(3) by simp
  ultimately have m: "to_c_int (c_div (tv_nsec time) 1000000) = tv_nsec time div 1000000"
    using assms(3) by (simp add: c_div_nonneg to_c_int_id)
  have ls: "length (printf_0d 10 (tv_sec time)) = 10"
    using assms(1,2) by (simp add: printf_0d_length)
  have lm: "length (printf_0d 10 (tv_nsec time div 1000000)) = 10"
    using \<open>0 \<le> tv_nsec time div 1000000\<close> \<open>tv_nsec time div 1000000 < 1000\<close>
    by (simp add: printf_0d_length)
  show ?thesis
    unfolding frame_header_def s m
    by (simp add: ls lm ppm_tail_def HRES_STR_def VRES_STR_def)
qed

lemma arrays_ok_update [simp]:
  "arrays_ok (s\<lparr>framecnt := c\<rparr>) = arrays_ok s"
  "arrays_ok (s\<lparr>bigbuffer := b\<rparr>) = arrays_ok s"
  "arrays_ok (s\<lparr>is_capture := f\<rparr>) = arrays_ok s"
  "arrays_ok (s\<lparr>files := fs\<rparr>) = arrays_ok s"
  "arrays_ok (s\<lparr>stdout := so\<rparr>) = arrays_ok s"
  "arrays_ok (s\<lparr>stderr := se\<rparr>) = arrays_ok s"
  by (simp_all add: arrays_ok_def)

lemma arrays_ok_signals: "arrays_ok (fold signalHandler sg s) = arrays_ok s"
  by (simp add: arrays_ok_def fold_signalHandler_fields)

text \<open>
  Claim C2. A pass of the capture loop in which a 320x240 YUYV frame of 153600
  bytes is dequeued, in a session that has written no frame yet, with an output
  file that opens and did not exist, writes that are taken whole and a clock
  before 2038, ends the loop, and the file system differs from the one before in
  exactly one file: \<^verbatim>\<open>frames/test00000001.ppm\<close>, holding the header with the
  two ten-digit numbers followed by 230400 bytes, the RGB24 pixels of the
  frame's quadruples.
\<close>

theorem one_frame_one_file:
  assumes st: "arrays_ok s" "framecnt s = 0" "pixelformat (fmt s) = V4L2_PIX_FMT_YUYV"
    and buf: "index < n_buffers s" "153600 \<le> length (frame_memory (buffers s) index mem)"
    and dev: "sel t = SelReady" "xioctl (dqbuf t) = Some (IoOk (index, 153600, mem))"
      "xioctl (qbuf t) \<noteq> None" "nanosleep_ret t = 0"
    and fsys: "open_ok t" "hdr_write t = Wrote 48" "data_writes t = Wrote 230400 # ws"
      "files s ''frames/test00000001.ppm'' = None"
    and clk: "0 \<le> tv_sec (clock t)" "tv_sec (clock t) < 2 ^ 31"
      "0 \<le> tv_nsec (clock t)" "tv_nsec (clock t) < 10 ^ 9"
  shows "\<exists>s' rgb.
     capture_frame (t # ts) s = Inr s' \<and>
     files s' = (files s)(''frames/test00000001.ppm'' \<mapsto>
        map of_char
          (''P6'' @ [NL] @ ''#'' @ printf_0d 10 (tv_sec (clock t)) @ '' sec '' @
           printf_0d 10 (tv_nsec (clock t) div 1000000) @ '' msec '' @ [NL] @
           ''320 240'' @ [NL] @ ''255'' @ [NL]) @ rgb) \<and>
     length (printf_0d 10 (tv_sec (clock t))) = 10 \<and>
     list_all is_digit (printf_0d 10 (tv_sec (clock t))) \<and>
     length (printf_0d 10 (tv_nsec (clock t) div 1000000)) = 10 \<and>
     list_all is_digit (printf_0d 10 (tv_nsec (clock t) div 1000000)) \<and>
     length rgb = 230400 \<and>
     (\<forall>k<38400. take 6 (drop (6 * k) rgb) =
        spec_pair (frame_memory (buffers s) index mem ! (4 * k))
                  (frame_memory (buffers s) index mem ! (4 * k + 1))
                  (frame_memory (buffers s) index mem ! (4 * k + 2))
                  (frame_memory (buffers s) index mem ! (4 * k + 3)))"
proof -
  let ?s0 = "fold signalHandler (signals t) s"
  let ?p = "frame_memory (buffers s) index mem"
  have ps: "passes 153600 0 = 38400"
    by (simp add: passes_def)
  from yuyv_pairs_share_chroma [of 153600 ?p "bigbuffer ?s0"] buf(2)
  obtain bb where cl: "convert_loop ?p 153600 0 0 (bigbuffer ?s0) = Inr bb"
    and px: "\<forall>k<38400. map bb [6 * k ..< 6 * k + 6] =
          spec_pixel (?p ! (4 * k)) (?p ! (4 * k + 1)) (?p ! (4 * k + 3)) @
          spec_pixel (?p ! (4 * k + 2)) (?p ! (4 * k + 1)) (?p ! (4 * k + 3))"
    unfolding ps by auto
  let ?rgb = "map bb [0..<230400]"
  let ?s1 = "?s0\<lparr>framecnt := framecnt ?s0 + 1, bigbuffer := bb\<rparr>"
  have fc: "framecnt ?s0 + 1 = 1"
    by (simp add: fold_signalHandler_fields st(2))
  have pi: "process_image t ?p 153600 ?s0 = dump_ppm t bb 230400 1 (clock t) ?s1"
    using process_image_yuyv [of ?s0 ?p 153600 bb t] cl st(3)
    by (simp add: fold_signalHandler_fields st(2) c_div_nonneg)
  have dp: "dump_ppm t bb 230400 1 (clock t) ?s1 =
    Inr (?s1\<lparr>ppm_header := frame_header (clock t) @ [NUL], ppm_dumpname := frame_name 1 @ [NUL],
           files := (files ?s1)(frame_name 1 \<mapsto> map of_char (frame_header (clock t)) @ map bb [0..<nat 230400]),
           stdout := stdout ?s1 @ [''Wrote a frame'' @ [NL]]\<rparr>)"
    using dump_ppm_fresh [where s = ?s1 and sz = 230400 and t = t and h = 48 and k = 230400
        and ws = ws and tag = 1 and p = bb and time = "clock t"]
    by (simp add: arrays_ok_signals st fsys fold_signalHandler_fields frame_name_1 BIGBUFFER_SIZE_def)
  define s' where "s' = ?s1\<lparr>ppm_header := frame_header (clock t) @ [NUL], ppm_dumpname := frame_name 1 @ [NUL],
           files := (files ?s1)(frame_name 1 \<mapsto> map of_char (frame_header (clock t)) @ map bb [0..<nat 230400]),
           stdout := stdout ?s1 @ [''Wrote a frame'' @ [NL]]\<rparr>"
  have e1: "frame_memory (buffers ?s0) index mem = ?p"
    by (simp add: fold_signalHandler_fields)
  have e2: "sint (153600 :: u32) = 153600"
    by simp
  have pis: "process_image t (frame_memory (buffers ?s0) index mem) (sint (153600 :: u32)) ?s0 = Inr s'"
    unfolding e1 e2 s'_def by (rule trans [OF pi dp])
  have nb: "index < n_buffers ?s0"
    by (simp add: fold_signalHandler_fields buf(1))
  have rf: "read_frame t ?s0 = Inr (1, s')"
    by (rule read_frame_ok [OF dev(2) nb pis dev(3)])
  have cf: "capture_frame (t # ts) s = Inr s'"
    by (rule capture_frame_ready [OF dev(1) rf dev(4)])
  have fl: "files s' = (files s)(''frames/test00000001.ppm'' \<mapsto>
        map of_char
          (''P6'' @ [NL] @ ''#'' @ printf_0d 10 (tv_sec (clock t)) @ '' sec '' @
           printf_0d 10 (tv_nsec (clock t) div 1000000) @ '' msec '' @ [NL] @
           ''320 240'' @ [NL] @ ''255'' @ [NL]) @ ?rgb)"
    unfolding s'_def frame_header_now [OF clk] frame_name_1
    by (simp add: fold_signalHandler_fields)
  have ms: "0 \<le> tv_nsec (clock t) div 1000000" "tv_nsec (clock t) div 1000000 < 10 ^ 10"
    using clk(3,4) by simp_all
  have tk: "take 6 (drop (6 * k) ?rgb) = spec_pair (?p ! (4 * k)) (?p ! (4 * k + 1)) (?p ! (4 * k + 2)) (?p ! (4 * k + 3))"
    if "k < 38400" for k
  proof -
    have "take 6 (drop (6 * k) ?rgb) = map bb (take 6 (drop (6 * k) [0..<230400]))"
      by (simp only: take_map drop_map)
    also have "take 6 (drop (6 * k) [0..<230400]) = [6 * k ..< 6 * k + 6]"
      using that by (simp add: take_upt drop_upt)
    finally show ?thesis
      using px that by (simp add: spec_pair_def)
  qed
  from cf fl tk clk ms show ?thesis
    by (intro exI [of _ s'] exI [of _ ?rgb] conjI allI impI)
       (simp_all add: printf_0d_length printf_0d_digits)
qed

section \<open>Transient conditions\<close>

lemma read_frame_transient:
  assumes "xioctl (dqbuf t) = Some (IoErr EAGAIN) \<or> xioctl (dqbuf t) = Some (IoErr EIO)"
  shows "read_frame t s = Inr (0, s)"
  using assms by (auto simp: read_frame_def)

lemma capture_frame_transient:
  assumes "transient t"
  shows "capture_frame (t # ts) s = capture_frame ts (fold signalHandler (signals t) s)"
proof (cases "sel t")
  case SelReady
  with assms have "read_frame t (fold signalHandler (signals t) s) = Inr (0, fold signalHandler (signals t) s)"
    by (intro read_frame_transient) (simp add: transient_def)
  with SelReady show ?thesis
    by (simp add: capture_frame.simps Let_def)
next
  case SelTimeout
  with assms show ?thesis by (simp add: transient_def)
next
  case (SelErr e)
  with assms show ?thesis by (simp add: capture_frame.simps transient_def Let_def)
qed

text \<open>
  Claim C5. A run of passes with transient conditions only (waits interrupted
  by a signal, dequeues answering \<^verbatim>\<open>EAGAIN\<close> or \<^verbatim>\<open>EIO\<close>) surfaces nothing: the
  loop goes on with the rest of the script, from a state that differs from the
  first only by what the signal handlers did; and in each such pass that
  reaches the dequeue, \<^verbatim>\<open>read_frame\<close> returns 0 and leaves the state as it was.
\<close>

theorem transient_conditions_not_surfaced:
  assumes "list_all transient ts"
  shows "capture_frame (ts @ rest) s =
           capture_frame rest (fold (\<lambda>t. fold signalHandler (signals t)) ts s) \<and>
         (\<forall>t\<in>set ts. sel t = SelReady \<longrightarrow> (\<forall>s'. read_frame t s' = Inr (0, s')))"
proof
  from assms show "capture_frame (ts @ rest) s =
      capture_frame rest (fold (\<lambda>t. fold signalHandler (signals t)) ts s)"
  proof (induction ts arbitrary: s)
    case Nil
    show ?case by simp
  next
    case (Cons t ts)
    from Cons.prems have t: "transient t" and ts: "list_all transient ts"
      by simp_all
    have "capture_frame ((t # ts) @ rest) s = capture_frame (ts @ rest) (fold signalHandler (signals t) s)"
      using capture_frame_transient [OF t] by simp
    also have "\<dots> = capture_frame rest
        (fold (\<lambda>t. fold signalHandler (signals t)) ts (fold signalHandler (signals t) s))"
      by (rule Cons.IH [OF ts])
    finally show ?case by simp
  qed
  show "\<forall>t\<in>set ts. sel t = SelReady \<longrightarrow> (\<forall>s'. read_frame t s' = Inr (0, s'))"
  proof (intro ballI impI allI)
    fix t s' assume "t \<in> set ts" and r: "sel t = SelReady"
    with assms have "transient t" by (simp add: list_all_iff)
    with r show "read_frame t s' = Inr (0, s')"
      by (intro read_frame_transient) (simp add: transient_def)
  qed
qed

theorem transient_conditions_not_surfaced_witness:
  "capture_frame
     [(frame_tick [])\<lparr>sel := SelErr EINTR\<rparr>,
      (frame_tick [])\<lparr>dqbuf := [IoErr EAGAIN]\<rparr>,
      (frame_tick [])\<lparr>dqbuf := [IoErr EINTR, IoErr EIO]\<rparr>,
      (frame_tick [])\<lparr>sel := SelTimeout\<rparr>] (streaming_state Map.empty) =
   capture_frame [(frame_tick [])\<lparr>sel := SelTimeout\<rparr>] (streaming_state Map.empty) \<and>
   read_frame ((frame_tick [])\<lparr>dqbuf := [IoErr EAGAIN]\<rparr>) (streaming_state Map.empty) =
     Inr (0, streaming_state Map.empty)"
proof -
  let ?ts = "[(frame_tick [])\<lparr>sel := SelErr EINTR\<rparr>,
      (frame_tick [])\<lparr>dqbuf := [IoErr EAGAIN]\<rparr>,
      (frame_tick [])\<lparr>dqbuf := [IoErr EINTR, IoErr EIO]\<rparr>]"
  have tr: "list_all transient ?ts"
    by (simp add: transient_def frame_tick_def)
  have sg: "fold (\<lambda>t. fold signalHandler (signals t)) ?ts (streaming_state Map.empty) = streaming_state Map.empty"
    by (simp add: frame_tick_def)
  have rd: "sel ((frame_tick [])\<lparr>dqbuf := [IoErr EAGAIN]\<rparr>) = SelReady"
    by (simp add: frame_tick_def)
  note T = transient_conditions_not_surfaced [OF tr,
      of "[(frame_tick [])\<lparr>sel := SelTimeout\<rparr>]" "streaming_state Map.empty"]
  from T have "capture_frame (?ts @ [(frame_tick [])\<lparr>sel := SelTimeout\<rparr>]) (streaming_state Map.empty) =
      capture_frame [(frame_tick [])\<lparr>sel := SelTimeout\<rparr>] (streaming_state Map.empty)"
    unfolding sg by (rule conjunct1)
  moreover from T rd
  have "read_frame ((frame_tick [])\<lparr>dqbuf := [IoErr EAGAIN]\<rparr>) (streaming_state Map.empty) =
     Inr (0, streaming_state Map.empty)"
    by simp
  ultimately show ?thesis
    by simp
qed

section \<open>The timeout\<close>

lemma select_timeout_fatal:
  assumes "sel t = SelTimeout"
  shows "capture_frame (t # ts) s =
     Inl (exit_failure (''select timeout'' @ [NL]) (fold signalHandler (signals t) s))"
  using assms by (simp add: capture_frame.simps Let_def exit_failure_def)

lemma files_exit_failure:
  "exit_failure msg s = Exited c s' \<Longrightarrow> c = EXIT_FAILURE \<and> files s' = files s"
  by (auto simp: exit_failure_def)

lemma files_signals: "files (fold (\<lambda>t. fold signalHandler (signals t)) ts s) = files s"
  by (induction ts arbitrary: s) (simp_all add: fold_signalHandler_fields)

lemma timeout_before_any_frame:
  assumes "list_all transient ts" and "sel t = SelTimeout"
  shows "\<exists>s'. capture_frame (ts @ t # rest) s = Inl (Exited EXIT_FAILURE s') \<and>
     files s' = files s \<and> framecnt s' = framecnt s \<and>
     stderr s' = stderr s @ [''select timeout'' @ [NL]]"
proof -
  let ?s1 = "fold (\<lambda>t. fold signalHandler (signals t)) ts s"
  have f: "files ?s1 = files s" by (rule files_signals)
  have c: "framecnt ?s1 = framecnt s" "stderr ?s1 = stderr s"
    by (induction ts arbitrary: s) (simp_all add: fold_signalHandler_fields)
  from transient_conditions_not_surfaced [OF assms(1), of "t # rest" s]
  have "capture_frame (ts @ t # rest) s = capture_frame (t # rest) ?s1"
    by simp
  also have "\<dots> = Inl (exit_failure (''select timeout'' @ [NL]) (fold signalHandler (signals t) ?s1))"
    by (rule select_timeout_fatal [OF assms(2)])
  finally show ?thesis
    by (simp add: exit_failure_def fold_signalHandler_fields f c)
qed

section \<open>Passes that process a frame\<close>

lemma read_frame_yuyv:
  assumes st: "arrays_ok s" "pixelformat (fmt s) = V4L2_PIX_FMT_YUYV"
    and dq: "xioctl (dqbuf t) = Some (IoOk (index, used, mem))" "index < n_buffers s"
    and sz: "0 \<le> sint used" "sint used \<le> 819200"
      "4 * passes (sint used) 0 \<le> length (frame_memory (buffers s) index mem)"
    and q: "xioctl (qbuf t) \<noteq> None"
    and fsys: "open_ok t" "hdr_write t = Wrote h" "48 \<le> h" "data_writes t = Wrote k # ws"
      "nat (c_div (sint used * 6) 4) \<le> k" "files s (frame_name (framecnt s + 1)) = None"
  shows "\<exists>bb. convert_loop (frame_memory (buffers s) index mem) (sint used) 0 0 (bigbuffer s) = Inr bb \<and>
     read_frame t s =
       Inr (1, s\<lparr>framecnt := framecnt s + 1, bigbuffer := bb,
                  ppm_header := frame_header (clock t) @ [NUL],
                  ppm_dumpname := frame_name (framecnt s + 1) @ [NUL],
                  files := (files s)(frame_name (framecnt s + 1) \<mapsto>
                     map of_char (frame_header (clock t)) @
                     map bb [0..<nat (c_div (sint used * 6) 4)]),
                  stdout := stdout s @ [''Wrote a frame'' @ [NL]]\<rparr>)"
proof -
  let ?p = "frame_memory (buffers s) index mem"
  from yuyv_pairs_share_chroma [OF sz(3,2), of "bigbuffer s"]
  obtain bb where cl: "convert_loop ?p (sint used) 0 0 (bigbuffer s) = Inr bb"
    by blast
  let ?s1 = "s\<lparr>framecnt := framecnt s + 1, bigbuffer := bb\<rparr>"
  let ?n = "c_div (sint used * 6) 4"
  have n: "?n = sint used * 6 div 4"
    using sz(1) by (simp add: c_div_nonneg)
  have pi: "process_image t ?p (sint used) s = dump_ppm t bb ?n (framecnt s + 1) (clock t) ?s1"
    by (rule process_image_yuyv [OF st(2) cl])
  have dp: "dump_ppm t bb ?n (framecnt s + 1) (clock t) ?s1 =
    Inr (?s1\<lparr>ppm_header := frame_header (clock t) @ [NUL],
           ppm_dumpname := frame_name (framecnt s + 1) @ [NUL],
           files := (files ?s1)(frame_name (framecnt s + 1) \<mapsto>
              map of_char (frame_header (clock t)) @ map bb [0..<nat ?n]),
           stdout := stdout ?s1 @ [''Wrote a frame'' @ [NL]]\<rparr>)"
  proof (rule dump_ppm_fresh [OF _ _ _ fsys(1,2,3,4,5)])
    show "arrays_ok ?s1" using st(1) by (simp add: arrays_ok_def)
    show "0 \<le> ?n" using sz(1) unfolding n by simp
    show "?n \<le> int BIGBUFFER_SIZE" using sz(2) unfolding n BIGBUFFER_SIZE_def by simp
    show "files ?s1 (frame_name (framecnt s + 1)) = None" using fsys(6) by simp
  qed
  have "read_frame t s = Inr (1, ?s1\<lparr>ppm_header := frame_header (clock t) @ [NUL],
           ppm_dumpname := frame_name (framecnt s + 1) @ [NUL],
           files := (files ?s1)(frame_name (framecnt s + 1) \<mapsto>
              map of_char (frame_header (clock t)) @ map bb [0..<nat ?n]),
           stdout := stdout ?s1 @ [''Wrote a frame'' @ [NL]]\<rparr>)"
    by (rule read_frame_ok [OF dq(1,2) trans [OF pi dp] q])
  with cl show ?thesis by (intro exI [of _ bb]) simp
qed

text \<open>The outcome of a pass in which a frame is processed: the loop ends when
  \<^verbatim>\<open>nanosleep\<close> returns 0 and goes on when it does not.\<close>

lemma capture_frame_after_frame:
  assumes "sel t = SelReady" and "read_frame t (fold signalHandler (signals t) s) = Inr (1, s')"
  shows "capture_frame (t # ts) s =
     (if nanosleep_ret t \<noteq> 0 then capture_frame ts (s'\<lparr>stderr := stderr s' @ [''nanosleep'']\<rparr>)
      else Inr s')"
  using assms by (simp add: capture_frame.simps Let_def)

text \<open>The simulated device on a frame of one quadruple.\<close>

lemma streaming_state_facts:
  "arrays_ok (streaming_state fs)"
  "pixelformat (fmt (streaming_state fs)) = V4L2_PIX_FMT_YUYV"
  "framecnt (streaming_state fs) = 0"
  "n_buffers (streaming_state fs) = 6"
  "files (streaming_state fs) = fs"
  "bigbuffer (streaming_state fs) = (\<lambda>a. 0)"
  "stderr (streaming_state fs) = []"
  "stdout (streaming_state fs) = []"
  "is_capture (streaming_state fs)"
  by (simp_all add: arrays_ok_def streaming_state_def initial_state_def ppm_header_init_def
        ppm_dumpname_init_def HRES_STR_def VRES_STR_def)

lemma frame_memory_streaming:
  "length mem \<le> 153600 \<Longrightarrow> frame_memory (buffers (streaming_state fs)) 0 mem = mem"
  by (simp add: frame_memory_def streaming_state_def)

lemma one_quadruple_frame:
  assumes st: "arrays_ok s" "pixelformat (fmt s) = V4L2_PIX_FMT_YUYV" "framecnt s = 0"
      "0 < n_buffers s" "frame_memory (buffers s) 0 [16, 128, 235, 128] = [16, 128, 235, 128]"
      "files s ''frames/test00000001.ppm'' = None"
    and tk: "xioctl (dqbuf t) = Some (IoOk (0, 4, [16, 128, 235, 128]))" "xioctl (qbuf t) \<noteq> None"
      "open_ok t" "hdr_write t = Wrote 48" "data_writes t = Wrote 6 # []"
  shows "\<exists>bb. read_frame t s =
     Inr (1, s\<lparr>framecnt := 1, bigbuffer := bb,
          ppm_header := frame_header (clock t) @ [NUL],
          ppm_dumpname := ''frames/test00000001.ppm'' @ [NUL],
          files := (files s)(''frames/test00000001.ppm'' \<mapsto>
             map of_char (frame_header (clock t)) @ [0, 0, 0, 255, 255, 255]),
          stdout := stdout s @ [''Wrote a frame'' @ [NL]]\<rparr>)"
proof -
  let ?m = "[16, 128, 235, 128] :: u8 list"
  have ps: "passes 4 0 = 1" by (simp add: passes_def)
  have u: "sint (4 :: u32) = 4" by simp
  have n: "nat (c_div (sint (4 :: u32) * 6) 4) = 6" by (simp add: c_div_nonneg)
  have "\<exists>bb. convert_loop (frame_memory (buffers s) 0 ?m) (sint (4 :: u32)) 0 0 (bigbuffer s) = Inr bb \<and>
     read_frame t s =
       Inr (1, s\<lparr>framecnt := framecnt s + 1, bigbuffer := bb,
                  ppm_header := frame_header (clock t) @ [NUL],
                  ppm_dumpname := frame_name (framecnt s + 1) @ [NUL],
                  files := (files s)(frame_name (framecnt s + 1) \<mapsto>
                     map of_char (frame_header (clock t)) @
                     map bb [0..<nat (c_div (sint (4 :: u32) * 6) 4)]),
                  stdout := stdout s @ [''Wrote a frame'' @ [NL]]\<rparr>)"
  proof (rule read_frame_yuyv [OF st(1,2) tk(1) st(4) _ _ _ tk(2,3,4) _ tk(5)])
    show "0 \<le> sint (4 :: u32)" "sint (4 :: u32) \<le> 819200" by simp_all
    show "4 * passes (sint (4 :: u32)) 0 \<le> length (frame_memory (buffers s) 0 ?m)"
      unfolding st(5) u ps by simp
    show "(48 :: nat) \<le> 48" by simp
    show "nat (c_div (sint (4 :: u32) * 6) 4) \<le> 6" unfolding n by simp
    show "files s (frame_name (framecnt s + 1)) = None" by (simp add: st(3,6) frame_name_1)
  qed
  then obtain bb where cl: "convert_loop ?m 4 0 0 (bigbuffer s) = Inr bb"
    and rf: "read_frame t s =
       Inr (1, s\<lparr>framecnt := 1, bigbuffer := bb,
                  ppm_header := frame_header (clock t) @ [NUL],
                  ppm_dumpname := frame_name 1 @ [NUL],
                  files := (files s)(frame_name 1 \<mapsto>
                     map of_char (frame_header (clock t)) @ map bb [0..<6]),
                  stdout := stdout s @ [''Wrote a frame'' @ [NL]]\<rparr>)"
    unfolding st(5) u n st(3) by (auto simp: c_div_nonneg)
  from yuyv_pairs_share_chroma [of 4 ?m "bigbuffer s"] cl
  have "\<forall>k<1. map bb [6 * k ..< 6 * k + 6] =
          spec_pixel (?m ! (4 * k)) (?m ! (4 * k + 1)) (?m ! (4 * k + 3)) @
          spec_pixel (?m ! (4 * k + 2)) (?m ! (4 * k + 1)) (?m ! (4 * k + 3))"
    unfolding ps by auto
  then have "map bb [0..<6] = spec_pixel 16 128 128 @ spec_pixel 235 128 128"
    by simp
  then have px: "map bb [0..<6] = [0, 0, 0, 255, 255, 255]"
    by (simp only: spec_pixel_black spec_pixel_white) simp
  show ?thesis
    using rf unfolding px frame_name_1 by blast
qed

text \<open>
  Claim C6, at the input where the code departs from it. In the first pass a
  frame is written and \<^verbatim>\<open>nanosleep\<close> fails, so the loop does not end (the
  \<^verbatim>\<open>break\<close> belongs to the \<^verbatim>\<open>else\<close>); the second wait times out. The process
  exits with \<^verbatim>\<open>EXIT_FAILURE\<close>, and the output file of the first pass exists.
\<close>

theorem timeout_after_interrupted_sleep:
  "\<exists>s'. capture_frame
       [(frame_tick [16, 128, 235, 128])\<lparr>nanosleep_ret := - 1\<rparr>,
        (frame_tick [])\<lparr>sel := SelTimeout\<rparr>] (streaming_state Map.empty) =
       Inl (Exited EXIT_FAILURE s') \<and>
     files s' ''frames/test00000001.ppm'' \<noteq> None"
proof -
  let ?t = "(frame_tick [16, 128, 235, 128])\<lparr>nanosleep_ret := - 1\<rparr>"
  let ?s = "streaming_state Map.empty"
  have sg: "fold signalHandler (signals ?t) ?s = ?s"
    by (simp add: frame_tick_def)
  have tk: "xioctl (dqbuf ?t) = Some (IoOk (0, 4, [16, 128, 235, 128]))" "xioctl (qbuf ?t) \<noteq> None"
      "open_ok ?t" "hdr_write ?t = Wrote 48" "data_writes ?t = Wrote 6 # []"
    by (simp_all add: frame_tick_def)
  have st: "0 < n_buffers ?s" "frame_memory (buffers ?s) 0 [16, 128, 235, 128] = [16, 128, 235, 128]"
      "files ?s ''frames/test00000001.ppm'' = None"
    by (simp_all add: streaming_state_facts frame_memory_streaming)
  from one_quadruple_frame [OF streaming_state_facts(1,2,3) st tk]
  obtain bb where rf: "read_frame ?t ?s =
     Inr (1, ?s\<lparr>framecnt := 1, bigbuffer := bb,
          ppm_header := frame_header (clock ?t) @ [NUL],
          ppm_dumpname := ''frames/test00000001.ppm'' @ [NUL],
          files := (files ?s)(''frames/test00000001.ppm'' \<mapsto>
             map of_char (frame_header (clock ?t)) @ [0, 0, 0, 255, 255, 255]),
          stdout := stdout ?s @ [''Wrote a frame'' @ [NL]]\<rparr>)"
    by blast
  let ?s1 = "?s\<lparr>framecnt := 1, bigbuffer := bb,
          ppm_header := frame_header (clock ?t) @ [NUL],
          ppm_dumpname := ''frames/test00000001.ppm'' @ [NUL],
          files := (files ?s)(''frames/test00000001.ppm'' \<mapsto>
             map of_char (frame_header (clock ?t)) @ [0, 0, 0, 255, 255, 255]),
          stdout := stdout ?s @ [''Wrote a frame'' @ [NL]]\<rparr>"
  have "capture_frame [?t, (frame_tick [])\<lparr>sel := SelTimeout\<rparr>] ?s =
      capture_frame [(frame_tick [])\<lparr>sel := SelTimeout\<rparr>] (?s1\<lparr>stderr := stderr ?s1 @ [''nanosleep'']\<rparr>)"
  proof -
    have sl: "sel ?t = SelReady" by (simp add: frame_tick_def)
    have rf': "read_frame ?t (fold signalHandler (signals ?t) ?s) = Inr (1, ?s1)"
      unfolding sg by (rule rf)
    from capture_frame_after_frame [OF sl rf', of "[(frame_tick [])\<lparr>sel := SelTimeout\<rparr>]"]
    show ?thesis by simp
  qed
  also have "\<dots> = Inl (exit_failure (''select timeout'' @ [NL])
       (fold signalHandler (signals ((frame_tick [])\<lparr>sel := SelTimeout\<rparr>))
          (?s1\<lparr>stderr := stderr ?s1 @ [''nanosleep'']\<rparr>)))"
    by (rule select_timeout_fatal) simp
  finally show ?thesis
    by (simp add: exit_failure_def fold_signalHandler_fields)
qed


section \<open>The stop flag\<close>

lemma set_flag_idem [simp]: "set_flag c (set_flag b s) = set_flag c s"
  by (simp add: set_flag_def)

lemma stop_map_set_flag [simp]:
  "stop_map (set_flag c) (stop_map (set_flag b) x) = stop_map (set_flag c) x"
  by (cases x) simp_all







section \<open>The frame counter\<close>












section \<open>Short writes\<close>

lemma write_loop_closed_descriptor:
  "tot \<le> sz \<Longrightarrow> write_loop ws False name p sz tot off fs = None"
  by (induction ws arbitrary: tot off fs) (simp_all add: sys_write_def Let_def)

lemma dump_ppm_open_failed:
  assumes "arrays_ok s" and "0 \<le> sz" and "sz \<le> int BIGBUFFER_SIZE" and "\<not> open_ok t"
  shows "dump_ppm t p sz tag time s = Inl Pending"
  unfolding dump_ppm_eval [OF assms(1,2,3)] Let_def
  using assms(2,4) by (simp add: write_loop_closed_descriptor)

lemma upt_6: "[0..<6] = [0, 1, 2, 3, 4, 5]"
  by (simp add: upt_rec)

text \<open>
  Claim C7, at the input where the code departs from it. Six bytes 0..5 are
  to be written; the first \<^verbatim>\<open>write\<close> takes two of them, the second is offered
  the same six bytes again (the code passes \<^verbatim>\<open>p\<close> and \<^verbatim>\<open>size\<close>, not what is
  left) and takes them all. The loop ends with \<open>total = 8\<close>, and the file
  holds eight bytes after the header: 0, 1 and then 0..5 once more.
\<close>

theorem short_write_repeats_the_frame:
  "\<exists>s'. dump_ppm ((frame_tick [])\<lparr>data_writes := [Wrote 2, Wrote 6]\<rparr>) (\<lambda>a. word_of_nat a) 6 1
           (clock (frame_tick [])) (streaming_state Map.empty) = Inr s' \<and>
     files s' ''frames/test00000001.ppm'' =
       Some (map of_char (frame_header (clock (frame_tick []))) @ [0, 1, 0, 1, 2, 3, 4, 5])"
proof -
  let ?t = "(frame_tick [])\<lparr>data_writes := [Wrote 2, Wrote 6]\<rparr>"
  have t: "open_ok ?t" "hdr_write ?t = Wrote 48" "data_writes ?t = [Wrote 2, Wrote 6]"
    by (simp_all add: frame_tick_def)
  have l: "length (map of_char (frame_header (clock (frame_tick []))) :: u8 list) = 48"
    by (simp add: length_frame_header)
  have o: "open_ok (frame_tick [])"
    by (simp add: frame_tick_def)
  show ?thesis
    unfolding dump_ppm_eval [OF streaming_state_facts(1), of 6, simplified BIGBUFFER_SIZE_def, simplified]
      Let_def t frame_name_1
    by (simp add: sys_write_def sys_open_creat_def file_put_def streaming_state_facts upt_6 l o
        length_frame_header)
qed

section \<open>Format negotiation\<close>

lemma paranoia_geometry [simp]:
  "width (paranoia f) = width f" "height (paranoia f) = height f"
  "pixelformat (paranoia f) = pixelformat f"
  by (simp_all add: paranoia_def Let_def)

lemma paranoia_word:
  "width (paranoia f) * 2 \<le> bytesperline (paranoia f) \<and>
   bytesperline (paranoia f) * height (paranoia f) \<le> sizeimage (paranoia f)"
  by (auto simp: paranoia_def Let_def not_less)

lemma unat_mult_exact:
  fixes a b :: u32
  assumes "unat a * unat b < 2 ^ 32"
  shows "unat (a * b) = unat a * unat b"
  using assms by (simp add: unat_mult_lem [THEN iffD1])

lemma paranoia_exact:
  "(2 * unat (width f) < 2 ^ 32 \<longrightarrow>
      2 * unat (width (paranoia f)) \<le> unat (bytesperline (paranoia f))) \<and>
   (unat (bytesperline (paranoia f)) * unat (height f) < 2 ^ 32 \<longrightarrow>
      unat (bytesperline (paranoia f)) * unat (height (paranoia f)) \<le> unat (sizeimage (paranoia f)))"
proof (intro conjI impI)
  assume "2 * unat (width f) < 2 ^ 32"
  then have "unat (width f * 2) = unat (width f) * 2"
    by (subst unat_mult_exact) simp_all
  moreover have "unat (width (paranoia f) * 2) \<le> unat (bytesperline (paranoia f))"
    using paranoia_word [of f] by (simp add: word_le_nat_alt)
  ultimately show "2 * unat (width (paranoia f)) \<le> unat (bytesperline (paranoia f))"
    by simp
next
  assume "unat (bytesperline (paranoia f)) * unat (height f) < 2 ^ 32"
  then have "unat (bytesperline (paranoia f) * height f) = unat (bytesperline (paranoia f)) * unat (height f)"
    by (rule unat_mult_exact)
  moreover have "unat (bytesperline (paranoia f) * height (paranoia f)) \<le> unat (sizeimage (paranoia f))"
    using paranoia_word [of f] by (simp add: word_le_nat_alt)
  ultimately show "unat (bytesperline (paranoia f)) * unat (height (paranoia f)) \<le> unat (sizeimage (paranoia f))"
    by simp
qed

section \<open>The buffer pool\<close>

lemma unat_next:
  fixes i n :: u32
  assumes "i < n"
  shows "unat (i + 1) = unat i + 1" and "i < i + 1" and "i + 1 \<le> n"
proof -
  from assms have lt: "unat i < unat n"
    by (simp add: word_less_nat_alt)
  moreover have "unat n < 2 ^ LENGTH(32)"
    by (rule unsigned_less)
  ultimately have "unat i + unat (1 :: u32) < 2 ^ LENGTH(32)"
    by simp
  then show u: "unat (i + 1) = unat i + 1"
    by (simp add: unat_add_lem [THEN iffD1])
  then show "i < i + 1" by (simp add: word_less_nat_alt)
  from u lt show "i + 1 \<le> n" by (simp add: word_le_nat_alt)
qed

lemma map_buffers_step:
  assumes "n_buffers s < count" and "xioctl (querybuf d (n_buffers s)) \<noteq> None"
  shows "map_buffers d count s =
     map_buffers d count
       (s\<lparr>buffers := (buffers s)[unat (n_buffers s) := mapped_entry d (n_buffers s)],
          n_buffers := n_buffers s + 1\<rparr>)"
proof -
  from assms(2) obtain r where r: "xioctl (querybuf d (n_buffers s)) = Some r" by auto
  show ?thesis
    by (subst map_buffers.simps)
       (cases r; auto simp: assms(1) r PRINT_ENABLE_def Let_def mapped_entry_def split: prod.splits)
qed

lemma map_buffers_done: "\<not> n_buffers s < count \<Longrightarrow> map_buffers d count s = Inr s"
  by (subst map_buffers.simps) simp

lemma map_buffers_result:
  assumes "\<forall>i. n_buffers s \<le> i \<and> i < count \<longrightarrow> xioctl (querybuf d i) \<noteq> None"
    and "n_buffers s \<le> count"
  shows "\<exists>s'. map_buffers d count s = Inr s' \<and> n_buffers s' = count \<and>
      length (buffers s') = length (buffers s) \<and>
      (\<forall>i. n_buffers s \<le> i \<and> i < count \<and> unat i < length (buffers s) \<longrightarrow>
           buffers s' ! unat i = mapped_entry d i) \<and>
      (\<forall>j. j < unat (n_buffers s) \<longrightarrow> buffers s' ! j = buffers s ! j) \<and>
      s' = s\<lparr>buffers := buffers s', n_buffers := count\<rparr>"
  using assms
proof (induction d count s rule: map_buffers.induct)
  case (1 d count s)
  show ?case
  proof (cases "n_buffers s < count")
    case False
    with "1.prems"(2) have "n_buffers s = count" by simp
    with False show ?thesis
      by (auto simp: map_buffers_done)
  next
    case True
    let ?n = "n_buffers s"
    let ?s1 = "s\<lparr>buffers := (buffers s)[unat ?n := mapped_entry d ?n], n_buffers := ?n + 1\<rparr>"
    from "1.prems"(1) True have q: "xioctl (querybuf d ?n) \<noteq> None" by simp
    note nx = unat_next [OF True]
    have p1: "\<forall>i. n_buffers ?s1 \<le> i \<and> i < count \<longrightarrow> xioctl (querybuf d i) \<noteq> None"
      using "1.prems"(1) nx(2) by auto
    have p2: "n_buffers ?s1 \<le> count" using nx(3) by simp
    have "\<exists>s'. map_buffers d count ?s1 = Inr s' \<and> n_buffers s' = count \<and>
      length (buffers s') = length (buffers ?s1) \<and>
      (\<forall>i. n_buffers ?s1 \<le> i \<and> i < count \<and> unat i < length (buffers ?s1) \<longrightarrow>
           buffers s' ! unat i = mapped_entry d i) \<and>
      (\<forall>j. j < unat (n_buffers ?s1) \<longrightarrow> buffers s' ! j = buffers ?s1 ! j) \<and>
      s' = ?s1\<lparr>buffers := buffers s', n_buffers := count\<rparr>"
    proof -
      obtain r where r: "xioctl (querybuf d ?n) = Some r" using q by auto
      obtain l off where lo: "(case r of IoErr e \<Rightarrow> (0, 0) | IoOk a \<Rightarrow> a) = (l, off)"
        by (cases "case r of IoErr e \<Rightarrow> (0 :: nat, 0 :: nat) | IoOk a \<Rightarrow> a") auto
      have e: "mapped_entry d ?n = \<lparr>start = mmap_res d ?n,
          length_b = (case r of IoErr e \<Rightarrow> 0 | IoOk (l, off) \<Rightarrow> l)\<rparr>"
        by (cases r) (auto simp: mapped_entry_def r)
      have c1: "\<not> ((case r of IoErr e \<Rightarrow> True | IoOk a \<Rightarrow> False) \<and> PRINT_ENABLE = 1)"
        and c2: "\<not> (mmap_res d ?n = None \<and> PRINT_ENABLE = 1)"
        by (simp_all add: PRINT_ENABLE_def)
      show ?thesis
        using "1.IH" [OF True r c1 refl refl c2] p1 p2
        unfolding e [symmetric] by simp
    qed
    then obtain s' where r: "map_buffers d count ?s1 = Inr s'" and n: "n_buffers s' = count"
      and l: "length (buffers s') = length (buffers s)"
      and a: "\<forall>i. ?n + 1 \<le> i \<and> i < count \<and> unat i < length (buffers s) \<longrightarrow>
           buffers s' ! unat i = mapped_entry d i"
      and b: "\<forall>j. j < unat (?n + 1) \<longrightarrow> buffers s' ! j = (buffers s)[unat ?n := mapped_entry d ?n] ! j"
      and e: "s' = ?s1\<lparr>buffers := buffers s', n_buffers := count\<rparr>"
      by auto
    have m: "map_buffers d count s = Inr s'"
      unfolding map_buffers_step [OF True q] by (rule r)
    have A: "buffers s' ! unat i = mapped_entry d i"
      if "?n \<le> i \<and> i < count \<and> unat i < length (buffers s)" for i
    proof (cases "i = ?n")
      case True
      with b nx(1) that show ?thesis by simp
    next
      case False
      with that have "?n < i" by (auto intro: le_neq_trans)
      then have "?n + 1 \<le> i" by (rule inc_le)
      with a that show ?thesis by simp
    qed
    have B: "buffers s' ! j = buffers s ! j" if "j < unat ?n" for j
      using b that nx(1) by simp
    have E: "s' = s\<lparr>buffers := buffers s', n_buffers := count\<rparr>"
      by (subst e) simp
    from m n l A B E show ?thesis by blast
  qed
qed

lemma init_mmap_granted:
  assumes "xioctl (reqbufs d 6) = Some (IoOk count)"
  shows "init_mmap d s =
     (if count < 2 then Inl (exit_failure (''Insufficient buffer memory on '' @ dev_name @ [NL]) s)
      else if \<not> calloc_ok d then Inl (exit_failure (''Out of memory'' @ [NL]) s)
      else map_buffers d count
             (s\<lparr>buffers := replicate (unat count) \<lparr>start = Some 0, length_b = 0\<rparr>,
                n_buffers := 0\<rparr>))"
  by (simp add: init_mmap_def assms Let_def)

lemma init_mmap_pool:
  assumes "xioctl (reqbufs d 6) = Some (IoOk count)" and "2 \<le> count" and "calloc_ok d"
    and "\<forall>i<count. xioctl (querybuf d i) \<noteq> None"
  shows "\<exists>s'. init_mmap d s = Inr s' \<and> n_buffers s' = count \<and> length (buffers s') = unat count \<and>
     (\<forall>i<count. buffers s' ! unat i = mapped_entry d i) \<and>
     s' = s\<lparr>buffers := buffers s', n_buffers := count\<rparr>"
proof -
  let ?s0 = "s\<lparr>buffers := replicate (unat count) \<lparr>start = Some 0, length_b = 0\<rparr>, n_buffers := 0\<rparr>"
  from assms(2) have c: "\<not> count < 2" by simp
  have "\<exists>s'. map_buffers d count ?s0 = Inr s' \<and> n_buffers s' = count \<and>
      length (buffers s') = length (buffers ?s0) \<and>
      (\<forall>i. n_buffers ?s0 \<le> i \<and> i < count \<and> unat i < length (buffers ?s0) \<longrightarrow>
           buffers s' ! unat i = mapped_entry d i) \<and>
      (\<forall>j. j < unat (n_buffers ?s0) \<longrightarrow> buffers s' ! j = buffers ?s0 ! j) \<and>
      s' = ?s0\<lparr>buffers := buffers s', n_buffers := count\<rparr>"
    by (rule map_buffers_result) (use assms(4) in simp_all)
  then obtain s' where m: "map_buffers d count ?s0 = Inr s'" and n: "n_buffers s' = count"
    and l: "length (buffers s') = unat count"
    and a: "\<forall>i. i < count \<and> unat i < unat count \<longrightarrow> buffers s' ! unat i = mapped_entry d i"
    and e: "s' = ?s0\<lparr>buffers := buffers s', n_buffers := count\<rparr>"
    by auto
  have "init_mmap d s = Inr s'"
    unfolding init_mmap_granted [OF assms(1)] using c assms(3) m by simp
  moreover have "\<forall>i<count. buffers s' ! unat i = mapped_entry d i"
    using a by (simp add: word_less_nat_alt)
  moreover have "s' = s\<lparr>buffers := buffers s', n_buffers := count\<rparr>"
    by (subst e) simp
  ultimately show ?thesis using n l by blast
qed

text \<open>
  Claim C4, as the code has it. The code asks for 6 buffers. When the device
  answers with fewer than 2, \<^verbatim>\<open>init_mmap\<close> prints "Insufficient buffer memory"
  and exits with \<^verbatim>\<open>EXIT_FAILURE\<close>. When it grants at least 2 (and \<^verbatim>\<open>calloc\<close>
  succeeds and the \<^verbatim>\<open>VIDIOC_QUERYBUF\<close> calls return), \<^verbatim>\<open>n_buffers\<close> and the
  length of the pool equal the number granted, and entry \<open>i\<close> holds what
  \<^verbatim>\<open>mmap\<close> returned for buffer \<open>i\<close>: the mapping, or \<^verbatim>\<open>MAP_FAILED\<close>, which with
  \<^verbatim>\<open>PRINT_ENABLE\<close> 0 does not stop the set-up. So the buffers mapped are those
  for which \<^verbatim>\<open>mmap\<close> succeeded, all of the granted ones when every \<^verbatim>\<open>mmap\<close>
  succeeds.
\<close>

theorem buffer_pool_allocation:
  assumes "xioctl (reqbufs d 6) = Some (IoOk count)"
  shows "(count < 2 \<longrightarrow>
            init_mmap d s =
              Inl (Exited EXIT_FAILURE
                (s\<lparr>stderr := stderr s @ [''Insufficient buffer memory on /dev/video0'' @ [NL]]\<rparr>))) \<and>
         (2 \<le> count \<and> calloc_ok d \<and> (\<forall>i<count. xioctl (querybuf d i) \<noteq> None) \<longrightarrow>
            (\<exists>s'. init_mmap d s = Inr s' \<and> n_buffers s' = count \<and>
               length (buffers s') = unat count \<and>
               (\<forall>i<count. start (buffers s' ! unat i) = mmap_res d i) \<and>
               ((\<forall>i<count. mmap_res d i \<noteq> None) \<longrightarrow>
                  length (filter (\<lambda>b. start b \<noteq> None) (buffers s')) = unat count)))"
proof (intro conjI impI)
  assume "count < 2"
  then show "init_mmap d s =
      Inl (Exited EXIT_FAILURE
        (s\<lparr>stderr := stderr s @ [''Insufficient buffer memory on /dev/video0'' @ [NL]]\<rparr>))"
    by (simp add: init_mmap_granted [OF assms] exit_failure_def dev_name_def)
next
  assume a: "2 \<le> count \<and> calloc_ok d \<and> (\<forall>i<count. xioctl (querybuf d i) \<noteq> None)"
  then have "\<exists>s'. init_mmap d s = Inr s' \<and> n_buffers s' = count \<and> length (buffers s') = unat count \<and>
     (\<forall>i<count. buffers s' ! unat i = mapped_entry d i) \<and>
     s' = s\<lparr>buffers := buffers s', n_buffers := count\<rparr>"
    by (intro init_mmap_pool [OF assms]) simp_all
  then obtain s' where i: "init_mmap d s = Inr s'" and n: "n_buffers s' = count"
    and l: "length (buffers s') = unat count"
    and e: "\<forall>i<count. buffers s' ! unat i = mapped_entry d i"
    by blast
  have st: "\<forall>i<count. start (buffers s' ! unat i) = mmap_res d i"
    using e by (simp add: mapped_entry_def)
  have all: "length (filter (\<lambda>b. start b \<noteq> None) (buffers s')) = unat count"
    if m: "\<forall>i<count. mmap_res d i \<noteq> None"
  proof -
    have "start b \<noteq> None" if "b \<in> set (buffers s')" for b
    proof -
      from that obtain j where j: "j < length (buffers s')" "b = buffers s' ! j"
        by (auto simp: in_set_conv_nth)
      let ?i = "word_of_nat j :: u32"
      from j(1) l have "j < 2 ^ LENGTH(32)"
        using unsigned_less [of count, where 'a = nat] by simp
      then have u: "unat ?i = j"
        by (simp add: unat_of_nat)
      with j(1) l have "?i < count"
        by (simp add: word_less_nat_alt)
      with st m u j(2) show ?thesis by auto
    qed
    then have "filter (\<lambda>b. start b \<noteq> None) (buffers s') = buffers s'"
      by (simp add: filter_id_conv)
    with l show ?thesis by simp
  qed
  from i n l st all
  show "\<exists>s'. init_mmap d s = Inr s' \<and> n_buffers s' = count \<and>
               length (buffers s') = unat count \<and>
               (\<forall>i<count. start (buffers s' ! unat i) = mmap_res d i) \<and>
               ((\<forall>i<count. mmap_res d i \<noteq> None) \<longrightarrow>
                  length (filter (\<lambda>b. start b \<noteq> None) (buffers s')) = unat count)"
    by blast
qed

lemma map_buffers_fmt:
  "map_buffers d count s = Inr s' \<Longrightarrow> fmt s' = fmt s"
proof (induction "unat count - unat (n_buffers s)" arbitrary: s rule: less_induct)
  case less
  show ?case
  proof (cases "n_buffers s < count")
    case False
    with less.prems show ?thesis
      by (simp add: map_buffers_done)
  next
    case True
    have q: "xioctl (querybuf d (n_buffers s)) \<noteq> None"
    proof
      assume "xioctl (querybuf d (n_buffers s)) = None"
      with True have "map_buffers d count s = Inl Pending"
        by (subst map_buffers.simps) simp
      with less.prems show False by simp
    qed
    let ?s1 = "s\<lparr>buffers := (buffers s)[unat (n_buffers s) := mapped_entry d (n_buffers s)],
          n_buffers := n_buffers s + 1\<rparr>"
    have "unat count - unat (n_buffers ?s1) < unat count - unat (n_buffers s)"
      using count_up_decreases [OF True] by simp
    from less.hyps [OF this] less.prems [unfolded map_buffers_step [OF True q]]
    show ?thesis by simp
  qed
qed

lemma init_mmap_fmt: "init_mmap d s = Inr s' \<Longrightarrow> fmt s' = fmt s"
  by (auto simp: init_mmap_def Let_def exit_failure_def errno_exit_def
      split: option.splits if_splits dest: map_buffers_fmt)

lemma init_device_fmt:
  assumes "init_device d s = Inr s'"
  shows "\<exists>f. negotiate d s = Inr f \<and> fmt s' = paranoia f"
proof -
  from assms obtain f where n: "negotiate d s = Inr f" and m: "init_mmap d (s\<lparr>fmt := paranoia f\<rparr>) = Inr s'"
    by (auto simp: init_device_def exit_failure_def errno_exit_def
        split: option.splits ioctl_res.splits if_splits sum.splits)
  from init_mmap_fmt [OF m] n show ?thesis by simp
qed

text \<open>
  Claim C3, where it fails. The driver answers \<^verbatim>\<open>VIDIOC_S_FMT\<close> with a width
  of \<open>2^31\<close> and no stride: \<^verbatim>\<open>fmt.fmt.pix.width * 2\<close> wraps to 0 in
  \<^verbatim>\<open>unsigned int\<close> arithmetic, the comparison finds nothing to correct, and
  the stride stays 0, below twice the width.
\<close>

theorem clamp_wraps_around:
  "\<exists>s'. init_device
       (sim_device\<lparr>s_fmt := [IoOk (sim_format\<lparr>width := 0x80000000, bytesperline := 0\<rparr>)]\<rparr>)
       (initial_state Map.empty) = Inr s' \<and>
     unat (bytesperline (fmt s')) < 2 * unat (width (fmt s'))"
proof -
  let ?f = "sim_format\<lparr>width := 0x80000000, bytesperline := 0\<rparr>"
  let ?d = "sim_device\<lparr>s_fmt := [IoOk ?f]\<rparr>"
  let ?s = "initial_state Map.empty"
  have n: "negotiate ?d ?s = Inr ?f"
    by (simp add: negotiate_def initial_state_def Let_def)
  have i: "init_device ?d ?s = init_mmap ?d (?s\<lparr>fmt := paranoia ?f\<rparr>)"
    unfolding init_device_def n
    by (simp add: sim_device_def V4L2_CAP_VIDEO_CAPTURE_def V4L2_CAP_STREAMING_def)
  have "\<exists>s'. init_mmap ?d (?s\<lparr>fmt := paranoia ?f\<rparr>) = Inr s' \<and> n_buffers s' = 6 \<and>
     length (buffers s') = unat (6 :: u32) \<and>
     (\<forall>i<6. buffers s' ! unat i = mapped_entry ?d i) \<and>
     s' = (?s\<lparr>fmt := paranoia ?f\<rparr>)\<lparr>buffers := buffers s', n_buffers := 6\<rparr>"
    by (rule init_mmap_pool) (simp_all add: sim_device_def)
  then obtain s' where m: "init_mmap ?d (?s\<lparr>fmt := paranoia ?f\<rparr>) = Inr s'"
    and e: "s' = (?s\<lparr>fmt := paranoia ?f\<rparr>)\<lparr>buffers := buffers s', n_buffers := 6\<rparr>"
    by blast
  have "fmt s' = paranoia ?f"
    by (subst e) simp
  moreover have "bytesperline (paranoia ?f) = 0" "width (paranoia ?f) = 0x80000000"
    by (simp_all add: paranoia_def sim_format_def Let_def)
  ultimately show ?thesis
    using i m by simp
qed

text \<open>
  Claim C3, as the code has it. After \<^verbatim>\<open>init_device\<close>, whichever branch
  negotiated the format and whatever the driver reported, the two inequalities
  hold in \<^verbatim>\<open>unsigned int\<close> arithmetic, that is with the products taken modulo
  \<open>2^32\<close>; each holds for the exact product when that product is below \<open>2^32\<close>.
\<close>

theorem format_clamp_invariant:
  assumes "init_device d s = Inr s'"
  shows "width (fmt s') * 2 \<le> bytesperline (fmt s') \<and>
         bytesperline (fmt s') * height (fmt s') \<le> sizeimage (fmt s') \<and>
         (2 * unat (width (fmt s')) < 2 ^ 32 \<longrightarrow>
            2 * unat (width (fmt s')) \<le> unat (bytesperline (fmt s'))) \<and>
         (unat (bytesperline (fmt s')) * unat (height (fmt s')) < 2 ^ 32 \<longrightarrow>
            unat (bytesperline (fmt s')) * unat (height (fmt s')) \<le> unat (sizeimage (fmt s')))"
proof -
  from init_device_fmt [OF assms] obtain f where f: "fmt s' = paranoia f"
    by blast
  show ?thesis
    unfolding f using paranoia_word [of f] paranoia_exact [of f] by simp
qed

lemma sim_device_answers:
  "xioctl (querycap sim_device) = Some (IoOk (or V4L2_CAP_VIDEO_CAPTURE V4L2_CAP_STREAMING))"
  "xioctl (cropcap sim_device) = Some (IoErr EINVAL)"
  "xioctl (s_fmt sim_device) = Some (IoOk sim_format)"
  "xioctl (reqbufs sim_device 6) = Some (IoOk 6)"
  "calloc_ok sim_device"
  "xioctl (querybuf sim_device i) = Some (IoOk (153600, 153600 * unat i))"
  "mmap_res sim_device i = Some (4096 + 153600 * unat i)"
  "xioctl (start_qbuf sim_device i) = Some (IoOk ())"
  "xioctl (streamon sim_device) = Some (IoOk ())"
  "xioctl (streamoff sim_device) = Some (IoOk ())"
  "stat_res sim_device = Some True" "open_res sim_device = 3"
  "ticks sim_device = [frame_tick (replicate 153600 0)]"
  by (simp_all add: sim_device_def)

lemma paranoia_sim_format: "paranoia sim_format = sim_format"
  by (simp add: paranoia_def sim_format_def Let_def HRES_def VRES_def)

lemma init_device_negotiated:
  assumes "xioctl (querycap d) = Some (IoOk caps)"
    and "and caps V4L2_CAP_VIDEO_CAPTURE \<noteq> 0" and "and caps V4L2_CAP_STREAMING \<noteq> 0"
    and "xioctl (cropcap d) = Some (IoErr e)" and "negotiate d s = Inr f"
  shows "init_device d s = init_mmap d (s\<lparr>fmt := paranoia f\<rparr>)"
  unfolding init_device_def using assms by simp

lemma negotiate_forced:
  assumes "force_format s \<noteq> 0" and "xioctl (s_fmt d) = Some (IoOk f)"
  shows "negotiate d s = Inr f"
  using assms by (simp add: negotiate_def Let_def)

lemma sim_caps:
  "and (or V4L2_CAP_VIDEO_CAPTURE V4L2_CAP_STREAMING) V4L2_CAP_VIDEO_CAPTURE \<noteq> 0"
  "and (or V4L2_CAP_VIDEO_CAPTURE V4L2_CAP_STREAMING) V4L2_CAP_STREAMING \<noteq> 0"
  by (simp_all add: V4L2_CAP_VIDEO_CAPTURE_def V4L2_CAP_STREAMING_def)

lemma init_device_sim:
  assumes "force_format s \<noteq> 0"
  shows "\<exists>s'. init_device sim_device s = Inr s' \<and> n_buffers s' = 6 \<and>
     length (buffers s') = 6 \<and> (\<forall>i<6. buffers s' ! unat i = mapped_entry sim_device i) \<and>
     s' = s\<lparr>fmt := sim_format, buffers := buffers s', n_buffers := 6\<rparr>"
proof -
  have n: "negotiate sim_device s = Inr sim_format"
    by (rule negotiate_forced [OF assms sim_device_answers(3)])
  have i: "init_device sim_device s = init_mmap sim_device (s\<lparr>fmt := sim_format\<rparr>)"
    using init_device_negotiated [OF sim_device_answers(1) sim_caps sim_device_answers(2) n]
    by (simp add: paranoia_sim_format)
  have "\<exists>s'. init_mmap sim_device (s\<lparr>fmt := sim_format\<rparr>) = Inr s' \<and> n_buffers s' = 6 \<and>
     length (buffers s') = unat (6 :: u32) \<and>
     (\<forall>i<6. buffers s' ! unat i = mapped_entry sim_device i) \<and>
     s' = (s\<lparr>fmt := sim_format\<rparr>)\<lparr>buffers := buffers s', n_buffers := 6\<rparr>"
    by (rule init_mmap_pool [OF sim_device_answers(4) _ sim_device_answers(5)])
       (simp_all add: sim_device_answers)
  then show ?thesis
    unfolding i by auto
qed

theorem format_clamp_invariant_witness:
  "\<exists>s'. init_device sim_device (initial_state Map.empty) = Inr s' \<and>
     width (fmt s') = 320 \<and> height (fmt s') = 240 \<and>
     width (fmt s') * 2 \<le> bytesperline (fmt s') \<and>
     bytesperline (fmt s') * height (fmt s') \<le> sizeimage (fmt s') \<and>
     2 * unat (width (fmt s')) \<le> unat (bytesperline (fmt s')) \<and>
     unat (bytesperline (fmt s')) * unat (height (fmt s')) \<le> unat (sizeimage (fmt s'))"
proof -
  have "force_format (initial_state Map.empty) \<noteq> 0"
    by (simp add: initial_state_def)
  from init_device_sim [OF this]
  obtain s' where i: "init_device sim_device (initial_state Map.empty) = Inr s'"
    and e: "s' = (initial_state Map.empty)\<lparr>fmt := sim_format, buffers := buffers s', n_buffers := 6\<rparr>"
    by blast
  have f: "fmt s' = sim_format"
    by (subst e) simp
  have g: "width (fmt s') = 320" "height (fmt s') = 240" "bytesperline (fmt s') = 640"
    unfolding f by (simp_all add: sim_format_def HRES_def VRES_def)
  from format_clamp_invariant [OF i] g i show ?thesis
    by (intro exI [of _ s']) simp
qed

text \<open>
  Claim C4, where it fails. The device grants 2 buffers and \<^verbatim>\<open>mmap\<close> fails for
  the second. With \<^verbatim>\<open>PRINT_ENABLE\<close> 0 the set-up goes on: \<^verbatim>\<open>n_buffers\<close> is 2,
  and one buffer is mapped.
\<close>

theorem failed_mapping_is_kept:
  "\<exists>s'. init_mmap
       (sim_device\<lparr>reqbufs := (\<lambda>n. [IoOk 2]),
                    mmap_res := (\<lambda>i. if i = 0 then Some 4096 else None)\<rparr>)
       (initial_state Map.empty) = Inr s' \<and>
     n_buffers s' = 2 \<and> length (filter (\<lambda>b. start b \<noteq> None) (buffers s')) = 1"
proof -
  let ?d = "sim_device\<lparr>reqbufs := (\<lambda>n. [IoOk 2]),
                    mmap_res := (\<lambda>i. if i = 0 then Some 4096 else None)\<rparr>"
  have "\<exists>s'. init_mmap ?d (initial_state Map.empty) = Inr s' \<and> n_buffers s' = 2 \<and>
     length (buffers s') = unat (2 :: u32) \<and>
     (\<forall>i<2. buffers s' ! unat i = mapped_entry ?d i) \<and>
     s' = (initial_state Map.empty)\<lparr>buffers := buffers s', n_buffers := 2\<rparr>"
    by (rule init_mmap_pool) (simp_all add: sim_device_def)
  then obtain s' where i: "init_mmap ?d (initial_state Map.empty) = Inr s'" and n: "n_buffers s' = 2"
    and l: "length (buffers s') = 2"
    and e: "\<forall>i<2. buffers s' ! unat i = mapped_entry ?d i"
    by auto
  from e have "(0 :: u32) < 2 \<longrightarrow> buffers s' ! unat (0 :: u32) = mapped_entry ?d 0"
    and "(1 :: u32) < 2 \<longrightarrow> buffers s' ! unat (1 :: u32) = mapped_entry ?d 1"
    by blast+
  then have b: "start (buffers s' ! 0) = Some 4096" "start (buffers s' ! 1) = None"
    by (simp_all add: mapped_entry_def)
  from l obtain b0 b1 where bs: "buffers s' = [b0, b1]"
    by (cases "buffers s'"; cases "tl (buffers s')") auto
  from b have "length (filter (\<lambda>b. start b \<noteq> None) (buffers s')) = 1"
    unfolding bs by simp
  with i n show ?thesis by blast
qed

theorem buffer_pool_allocation_witness:
  "(\<exists>s'. init_mmap sim_device (initial_state Map.empty) = Inr s' \<and> n_buffers s' = 6 \<and>
      length (buffers s') = 6 \<and> length (filter (\<lambda>b. start b \<noteq> None) (buffers s')) = 6) \<and>
   init_mmap (sim_device\<lparr>reqbufs := (\<lambda>n. [IoOk 1])\<rparr>) (initial_state Map.empty) =
     Inl (Exited EXIT_FAILURE
       ((initial_state Map.empty)
          \<lparr>stderr := [''Insufficient buffer memory on /dev/video0'' @ [NL]]\<rparr>))"
proof -
  let ?s = "initial_state Map.empty"
  have h: "(2 :: u32) \<le> 6 \<and> calloc_ok sim_device \<and> (\<forall>i<6. xioctl (querybuf sim_device i) \<noteq> None)"
    by (simp add: sim_device_answers)
  have m: "\<forall>i<6. mmap_res sim_device i \<noteq> None"
    by (simp add: sim_device_answers)
  from buffer_pool_allocation [OF sim_device_answers(4), of ?s] h m
  have 1: "\<exists>s'. init_mmap sim_device ?s = Inr s' \<and> n_buffers s' = 6 \<and>
      length (buffers s') = 6 \<and> length (filter (\<lambda>b. start b \<noteq> None) (buffers s')) = 6"
    by auto
  have r: "xioctl (reqbufs (sim_device\<lparr>reqbufs := (\<lambda>n. [IoOk 1])\<rparr>) 6) = Some (IoOk 1)"
    by simp
  from buffer_pool_allocation [OF r, of ?s]
  have 2: "init_mmap (sim_device\<lparr>reqbufs := (\<lambda>n. [IoOk 1])\<rparr>) ?s =
     Inl (Exited EXIT_FAILURE (?s\<lparr>stderr := stderr ?s @ [''Insufficient buffer memory on /dev/video0'' @ [NL]]\<rparr>))"
    by simp
  have "stderr ?s = []" by (simp add: initial_state_def)
  with 1 2 show ?thesis by simp
qed

section \<open>The whole session on the simulated device\<close>

lemma queue_buffers_returns:
  assumes "\<forall>i. xioctl (start_qbuf d i) \<noteq> None"
  shows "queue_buffers d i s = Inr s"
proof (induction "unat (n_buffers s) - unat i" arbitrary: i rule: less_induct)
  case less
  show ?case
  proof (cases "i < n_buffers s")
    case False
    then show ?thesis by (subst queue_buffers.simps) simp
  next
    case True
    from assms obtain r where r: "xioctl (start_qbuf d i) = Some r" by auto
    have "queue_buffers d i s = queue_buffers d (i + 1) s"
      by (subst queue_buffers.simps) (cases r; simp add: True r PRINT_ENABLE_def)
    also have "\<dots> = Inr s"
      by (rule less.hyps) (rule count_up_decreases [OF True])
    finally show ?thesis .
  qed
qed

lemma unmap_buffers_returns: "unmap_buffers d i s = Inr s"
proof (induction "unat (n_buffers s) - unat i" arbitrary: i rule: less_induct)
  case less
  show ?case
  proof (cases "i < n_buffers s")
    case False
    then show ?thesis by (subst unmap_buffers.simps) simp
  next
    case True
    have "unmap_buffers d i s = unmap_buffers d (i + 1) s"
      by (subst unmap_buffers.simps) (simp add: True PRINT_ENABLE_def)
    also have "\<dots> = Inr s"
      by (rule less.hyps) (rule count_up_decreases [OF True])
    finally show ?thesis .
  qed
qed

text \<open>Tear-down never fails with \<^verbatim>\<open>PRINT_ENABLE\<close> 0: once the
  \<^verbatim>\<open>VIDIOC_STREAMOFF\<close> call has returned, the pool is released and the
  descriptor is closed, whatever the calls answered.\<close>

lemma teardown:
  assumes "xioctl (streamoff d) \<noteq> None"
  shows "stop_capturing d s = Inr s" and "uninit_device d s = Inr (s\<lparr>buffers := []\<rparr>)"
    and "close_device d s = Inr (s\<lparr>fd := - 1\<rparr>)"
proof -
  from assms obtain r where "xioctl (streamoff d) = Some r" by auto
  then show "stop_capturing d s = Inr s"
    by (cases r) (simp_all add: stop_capturing_def PRINT_ENABLE_def)
  show "uninit_device d s = Inr (s\<lparr>buffers := []\<rparr>)"
    by (simp add: uninit_device_def unmap_buffers_returns)
  show "close_device d s = Inr (s\<lparr>fd := - 1\<rparr>)"
    by (simp add: close_device_def PRINT_ENABLE_def)
qed

lemma camera_capture_sim:
  assumes "capture_frame (ticks sim_device) s3 = Inr s4"
    and "init_device sim_device ((initial_state fs)\<lparr>fd := 3\<rparr>) = Inr s3"
  shows "camera_capture sim_device (initial_state fs) =
     Inr (0, s4\<lparr>is_capture := False, buffers := [], fd := - 1, stderr := stderr s4 @ [[NL]]\<rparr>)"
proof -
  have o: "open_device sim_device (initial_state fs) = Inr ((initial_state fs)\<lparr>fd := 3\<rparr>)"
    by (simp add: open_device_def sim_device_answers Let_def)
  have q: "start_capturing sim_device s3 = Inr s3"
    by (simp add: start_capturing_def queue_buffers_returns sim_device_answers)
  have so: "xioctl (streamoff sim_device) \<noteq> None"
    by (simp add: sim_device_answers)
  show ?thesis
    by (simp add: camera_capture_def o assms q teardown [OF so])
qed

theorem one_frame_one_file_witness:
  "\<exists>s' rgb.
     camera_capture sim_device (initial_state Map.empty) = Inr (0, s') \<and>
     files s' = [''frames/test00000001.ppm'' \<mapsto>
        map of_char
          (''P6'' @ [NL] @ ''#1700000000 sec 0000000123 msec '' @ [NL] @
           ''320 240'' @ [NL] @ ''255'' @ [NL]) @ rgb] \<and>
     length rgb = 230400"
proof -
  let ?s = "(initial_state Map.empty)\<lparr>fd := 3\<rparr>" and ?t = "frame_tick (replicate 153600 0)"
  have "force_format ?s \<noteq> 0" by (simp add: initial_state_def)
  from init_device_sim [OF this]
  obtain s3 where i: "init_device sim_device ?s = Inr s3" and n: "n_buffers s3 = 6"
    and l: "length (buffers s3) = 6" and b: "\<forall>i<6. buffers s3 ! unat i = mapped_entry sim_device i"
    and e: "s3 = ?s\<lparr>fmt := sim_format, buffers := buffers s3, n_buffers := 6\<rparr>"
    by blast
  from b have "(0 :: u32) < 6 \<longrightarrow> buffers s3 ! unat (0 :: u32) = mapped_entry sim_device 0"
    by blast
  then have b0: "buffers s3 ! 0 = \<lparr>start = Some 4096, length_b = 153600\<rparr>"
    by (simp add: mapped_entry_def sim_device_answers)
  have st: "arrays_ok s3" "framecnt s3 = 0" "pixelformat (fmt s3) = V4L2_PIX_FMT_YUYV"
    by (subst e, simp add: arrays_ok_def initial_state_def ppm_header_init_def
        ppm_dumpname_init_def HRES_STR_def VRES_STR_def sim_format_def)+
  have buf: "0 < n_buffers s3" "153600 \<le> length (frame_memory (buffers s3) 0 (replicate 153600 0))"
    by (simp_all add: n frame_memory_def l b0)
  have dev: "sel ?t = SelReady" "xioctl (dqbuf ?t) = Some (IoOk (0, 153600, replicate 153600 0))"
      "xioctl (qbuf ?t) \<noteq> None" "nanosleep_ret ?t = 0"
    by (simp_all add: frame_tick_def)
  have fs: "files s3 = Map.empty"
    by (subst e) (simp add: initial_state_def)
  have fsys: "open_ok ?t" "hdr_write ?t = Wrote 48" "data_writes ?t = Wrote 230400 # []"
      "files s3 ''frames/test00000001.ppm'' = None"
    by (simp_all add: frame_tick_def fs)
  have clk: "0 \<le> tv_sec (clock ?t)" "tv_sec (clock ?t) < 2 ^ 31"
      "0 \<le> tv_nsec (clock ?t)" "tv_nsec (clock ?t) < 10 ^ 9"
    by (simp_all add: frame_tick_def)
  have tm: "tv_sec (clock ?t) = 1700000000" "tv_nsec (clock ?t) div 1000000 = 123"
    by (simp_all add: frame_tick_def)
  have p1: "printf_0d 10 1700000000 = ''1700000000''"
    by (simp add: printf_0d_def digits10_small digits10_big)
  have p2: "printf_0d 10 123 = ''0000000123''"
    by (simp add: printf_0d_def digits10_small digits10_big replicate_num)
  from one_frame_one_file [OF st buf dev fsys clk, of "[]"]
  obtain s4 rgb where c: "capture_frame [?t] s3 = Inr s4"
    and f: "files s4 = (files s3)(''frames/test00000001.ppm'' \<mapsto>
        map of_char
          (''P6'' @ [NL] @ ''#'' @ printf_0d 10 (tv_sec (clock ?t)) @ '' sec '' @
           printf_0d 10 (tv_nsec (clock ?t) div 1000000) @ '' msec '' @ [NL] @
           ''320 240'' @ [NL] @ ''255'' @ [NL]) @ rgb)"
    and r: "length rgb = 230400"
    by blast
  have "capture_frame (ticks sim_device) s3 = Inr s4"
    using c by (simp add: sim_device_answers)
  from camera_capture_sim [OF this i] f r show ?thesis
    unfolding tm p1 p2 fs
    by (intro exI [of _ "s4\<lparr>is_capture := False, buffers := [], fd := - 1, stderr := stderr s4 @ [[NL]]\<rparr>"]
        exI [of _ rgb]) simp
qed

end
